theory Spec2Isabelle
  imports Main "HOL-Library.Word"
begin

unbundle bit_operations_syntax

section \<open>Address codec (cachesim_addr.cc)\<close>

text \<open>
  Every way in which the C++ can leave its defined behaviour is a value of \<open>error\<close>:
  \<^item> \<open>ConfigError\<close>: \<open>help()\<close> prints the usage text and calls \<open>exit(1)\<close>;
  \<^item> \<open>OutOfBounds\<close>: \<open>operator[]\<close> of a \<open>std::vector\<close> past its size;
  \<^item> \<open>NullPolicy\<close>: a call through the \<open>policy\<close> pointer when it is \<open>NULL\<close>;
  \<^item> \<open>Log2OfZero\<close>: \<open>(uint32_t)std::log2(0)\<close>, the conversion of minus infinity to an
    unsigned integer.
\<close>

datatype error = ConfigError | OutOfBounds | NullPolicy | Log2OfZero

text \<open>
  Modelled from the spec: the header \<open>cachesim_addr.h\<close> with the declaration of the four
  fields is not among the sources. The spec calls \<open>tag\<close> and \<open>setIndex\<close> unsigned
  integers; the constructor fills both from the \<open>uint32_t\<close> local \<open>stripped\<close>, so
  they are taken as \<open>uint32_t\<close>. The order of the fields is the one of the copy
  constructor's initialiser list.
\<close>

record cache_sim_addr_t =
  valid :: bool
  dirty :: bool
  tag :: "32 word"
  idx :: "32 word"

text \<open>The default constructor: an invalid, clean entry.\<close>

definition cache_sim_addr_t_default :: cache_sim_addr_t where
  "cache_sim_addr_t_default = \<lparr>valid = False, dirty = False, tag = 0, idx = 0\<rparr>"

text \<open>
  \<open>(uint32_t)std::log2(x)\<close> for a \<open>uint32_t x\<close>: the argument converts to \<open>double\<close>
  exactly, the logarithm of a power of two is exact, and for every other 32-bit value it
  lies strictly between two integers, so the conversion truncates it to the floor.
\<close>

fun floor_log2 :: "nat \<Rightarrow> nat" where
  "floor_log2 n = (if n < 2 then 0 else Suc (floor_log2 (n div 2)))"

declare floor_log2.simps [simp del]

definition log2_u32 :: "32 word \<Rightarrow> error + nat" where
  "log2_u32 x = (if x = 0 then Inl Log2OfZero else Inr (floor_log2 (unat x)))"

text \<open>
  The decomposing constructor \<open>cache_sim_addr_t(addr, sets, linesz)\<close>. The shifted address
  is stored in a \<open>uint32_t\<close>, which keeps its low 32 bits.
\<close>

definition cache_sim_addr_t_of :: "64 word \<Rightarrow> 32 word \<Rightarrow> 32 word \<Rightarrow> error + cache_sim_addr_t" where
  "cache_sim_addr_t_of addr sets linesz =
     (case log2_u32 linesz of Inl e \<Rightarrow> Inl e | Inr ls \<Rightarrow>
     (case log2_u32 sets of Inl e \<Rightarrow> Inl e | Inr ss \<Rightarrow>
        (let stripped = (ucast (drop_bit ls addr) :: 32 word)
         in Inr \<lparr>valid = True, dirty = False,
                 tag = drop_bit ss stripped,
                 idx = stripped AND (sets - 1)\<rparr>)))"

definition op_eq :: "cache_sim_addr_t \<Rightarrow> cache_sim_addr_t \<Rightarrow> bool" where
  "op_eq this other = ((valid this \<and> valid other) \<and> tag this = tag other)"

definition op_lt :: "cache_sim_addr_t \<Rightarrow> cache_sim_addr_t \<Rightarrow> bool" where
  "op_lt this other =
     ((valid this \<and> valid other) \<and>
      (tag this < tag other \<or> (tag this = tag other \<and> idx this < idx other)))"

definition next_cacheline :: "cache_sim_addr_t \<Rightarrow> 32 word \<Rightarrow> cache_sim_addr_t" where
  "next_cacheline this sets =
     (let this1 = (if idx this = sets - 1 then this\<lparr>tag := tag this + 1\<rparr> else this)
      in this1\<lparr>idx := idx this1 + 1\<rparr>)"

definition set_valid :: "cache_sim_addr_t \<Rightarrow> cache_sim_addr_t" where
  "set_valid this = this\<lparr>valid := True\<rparr>"

definition set_invalid :: "cache_sim_addr_t \<Rightarrow> cache_sim_addr_t" where
  "set_invalid this = this\<lparr>valid := False\<rparr>"

definition set_dirty :: "cache_sim_addr_t \<Rightarrow> cache_sim_addr_t" where
  "set_dirty this = this\<lparr>dirty := True\<rparr>"

definition set_clean :: "cache_sim_addr_t \<Rightarrow> cache_sim_addr_t" where
  "set_clean this = this\<lparr>dirty := False\<rparr>"

text \<open>
  \<open>to_uint64\<close>: the first shift is done on the 32-bit \<open>tag\<close> and only its result is
  widened; the second shift is done on the 64-bit local.
\<close>

definition to_uint64 :: "cache_sim_addr_t \<Rightarrow> 32 word \<Rightarrow> 32 word \<Rightarrow> error + 64 word" where
  "to_uint64 this sets linesz =
     (case log2_u32 sets of Inl e \<Rightarrow> Inl e | Inr ss \<Rightarrow>
     (case log2_u32 linesz of Inl e \<Rightarrow> Inl e | Inr ls \<Rightarrow>
        (let addr0 = (ucast (push_bit ss (tag this)) :: 64 word);
             addr1 = addr0 OR ucast (idx this)
         in Inr (push_bit ls addr1))))"

text \<open>The geometry the spec calls valid, on the 32-bit parameters of the codec.\<close>

definition is_pow2 :: "'a::len word \<Rightarrow> bool" where
  "is_pow2 x = (x \<noteq> 0 \<and> x AND (x - 1) = 0)"

definition line_aligned :: "64 word \<Rightarrow> 32 word \<Rightarrow> bool" where
  "line_aligned a linesz = (a AND (ucast linesz - 1) = 0)"

section \<open>Cache engine (cachesim.cc)\<close>

text \<open>
  Modelled from the spec: the counter sink \<open>perf_counter\<close> is an external collaborator
  whose class is not among the sources. It is modelled as the list of the notifications
  it has received, oldest first.
\<close>

datatype perf_event = OnAccess bool "64 word" | OnMiss bool | OnWriteback | OnClean

text \<open>
  Modelled from the spec: the classes \<open>eviction_policy_t\<close>, \<open>lfsr_t\<close>, \<open>lru_t\<close>,
  \<open>fifo_t\<close>, \<open>lip_t\<close> and \<open>bip_t\<close> are not among the sources. A policy object is a
  value of an arbitrary type \<open>'p\<close>; its constructors and its three virtual methods are
  parameters of the engine. \<open>next\<close> returns the chosen way together with the object's
  new state.
\<close>

datatype policy_kind = Lfsr | Lru | Fifo | Lip | Bip

record 'p eviction_policy_ops =
  pol_new :: "policy_kind \<Rightarrow> 64 word \<Rightarrow> 64 word \<Rightarrow> 'p"
  pol_next :: "'p \<Rightarrow> 32 word \<Rightarrow> 64 word \<times> 'p"
  pol_insert :: "'p \<Rightarrow> 32 word \<Rightarrow> 64 word \<Rightarrow> 'p"
  pol_update :: "'p \<Rightarrow> cache_sim_addr_t \<Rightarrow> int \<Rightarrow> 'p"

text \<open>
  The members of one \<open>cache_sim_t\<close>. \<open>size_t\<close> is 64 bits wide. \<open>cerr\<close> collects the
  miss lines written when \<open>log\<close> is set: the name, whether the access was a store, and
  the recomposed address.
\<close>

record 'p cache_state =
  sets :: "64 word"
  ways :: "64 word"
  linesz :: "64 word"
  tags :: "cache_sim_addr_t list list"
  policy :: "'p option"
  name :: string
  log :: bool
  perf_counter :: "perf_event list"
  cerr :: "(string \<times> bool \<times> 64 word) list"

text \<open>
  An engine with the chain below it: \<open>miss_handler\<close> is the next level, \<open>None\<close> the
  null pointer of the last level.
\<close>

datatype 'p cache_sim_t =
  Cache_sim (self: "'p cache_state") (miss_handler: "'p cache_sim_t option")

fun levels :: "'p cache_sim_t \<Rightarrow> nat" where
  "levels (Cache_sim s None) = 1"
| "levels (Cache_sim s (Some m)) = Suc (levels m)"

definition policy_is_valid :: "string \<Rightarrow> bool" where
  "policy_is_valid eviction_policy =
     (eviction_policy = ''lfsr'' \<or> eviction_policy = ''lru'' \<or> eviction_policy = ''fifo'' \<or>
      eviction_policy = ''lip'' \<or> eviction_policy = ''bip'')"

definition create_eviction_policy ::
  "'p eviction_policy_ops \<Rightarrow> 'p cache_state \<Rightarrow> string \<Rightarrow> 'p option" where
  "create_eviction_policy ops s eviction_policy =
     (if eviction_policy = ''lfsr'' then Some (pol_new ops Lfsr (sets s) (ways s))
      else if eviction_policy = ''lru'' then Some (pol_new ops Lru (sets s) (ways s))
      else if eviction_policy = ''fifo'' then Some (pol_new ops Fifo (sets s) (ways s))
      else if eviction_policy = ''lip'' then Some (pol_new ops Lip (sets s) (ways s))
      else if eviction_policy = ''bip'' then Some (pol_new ops Bip (sets s) (ways s))
      else None)"

text \<open>
  \<open>init\<close>: the two geometry checks call \<open>help()\<close>, which exits. After them the tag
  array is resized to \<open>sets\<close> rows of \<open>ways\<close> default entries, the miss handler is
  cleared and the policy is created.
\<close>

definition init :: "'p eviction_policy_ops \<Rightarrow> 'p cache_state \<Rightarrow> string \<Rightarrow> error + 'p cache_sim_t" where
  "init ops s eviction_policy =
     (if sets s = 0 \<or> sets s AND (sets s - 1) \<noteq> 0 then Inl ConfigError
      else if linesz s < 8 \<or> linesz s AND (linesz s - 1) \<noteq> 0 then Inl ConfigError
      else
        (let s1 = s\<lparr>tags := replicate (unat (sets s))
                               (replicate (unat (ways s)) cache_sim_addr_t_default)\<rparr>
         in Inr (Cache_sim (s1\<lparr>policy := create_eviction_policy ops s1 eviction_policy\<rparr>) None)))"

text \<open>
  The constructor \<open>cache_sim_t(_sets, _ways, _linesz, _name, eviction_policy)\<close> and the
  one without a policy name, which passes \<open>lfsr\<close>.
\<close>

definition cache_sim_t_new ::
  "'p eviction_policy_ops \<Rightarrow> 64 word \<Rightarrow> 64 word \<Rightarrow> 64 word \<Rightarrow> string \<Rightarrow> string \<Rightarrow> error + 'p cache_sim_t" where
  "cache_sim_t_new ops sets0 ways0 linesz0 name0 eviction_policy =
     init ops \<lparr>sets = sets0, ways = ways0, linesz = linesz0, tags = [], policy = None,
               name = name0, log = False, perf_counter = [], cerr = []\<rparr> eviction_policy"

definition cache_sim_t_new_lfsr ::
  "'p eviction_policy_ops \<Rightarrow> 64 word \<Rightarrow> 64 word \<Rightarrow> 64 word \<Rightarrow> string \<Rightarrow> error + 'p cache_sim_t" where
  "cache_sim_t_new_lfsr ops sets0 ways0 linesz0 name0 =
     init ops \<lparr>sets = sets0, ways = ways0, linesz = linesz0, tags = [], policy = None,
               name = name0, log = False, perf_counter = [], cerr = []\<rparr> ''lfsr''"

text \<open>
  Modelled from the spec: \<open>set_miss_handler\<close> and \<open>set_log\<close> are declared in the header
  \<open>cachesim.h\<close>, which is not among the sources. The first links an engine to the next
  level, the second switches the verbose mode.
\<close>

fun set_miss_handler :: "'p cache_sim_t \<Rightarrow> 'p cache_sim_t \<Rightarrow> 'p cache_sim_t" where
  "set_miss_handler (Cache_sim s mh) m = Cache_sim s (Some m)"

fun set_log :: "'p cache_sim_t \<Rightarrow> bool \<Rightarrow> 'p cache_sim_t" where
  "set_log (Cache_sim s mh) l = Cache_sim (s\<lparr>log := l\<rparr>) mh"

text \<open>
  \<open>std::find(begin, end, value)\<close> as the position of the first element equal to the
  value, the length of the range when there is none.
\<close>

primrec std_find :: "cache_sim_addr_t list \<Rightarrow> cache_sim_addr_t \<Rightarrow> nat" where
  "std_find [] a = 0"
| "std_find (x # xs) a = (if op_eq x a then 0 else Suc (std_find xs a))"

text \<open>
  \<open>check_tag\<close>: the row \<open>tags[addr.idx]\<close> must exist. The distance is returned as an
  \<open>int\<close>, which keeps its low 32 bits, read as two's complement.
\<close>

definition check_tag :: "'p cache_state \<Rightarrow> cache_sim_addr_t \<Rightarrow> error + int" where
  "check_tag s addr =
     (if unat (idx addr) < length (tags s) then
        (let row = tags s ! unat (idx addr); it = std_find row addr
         in if it \<noteq> length row then Inr (sint (word_of_nat it :: 32 word)) else Inr (- 1))
      else Inl OutOfBounds)"

text \<open>\<open>tags[i][w].f()\<close> for one of the setters \<open>f\<close>; both subscripts must be in range.\<close>

definition modify_line ::
  "(cache_sim_addr_t \<Rightarrow> cache_sim_addr_t) \<Rightarrow> nat \<Rightarrow> nat \<Rightarrow> 'p cache_state \<Rightarrow> error + 'p cache_state" where
  "modify_line f i w s =
     (if i < length (tags s) \<and> w < length (tags s ! i)
      then Inr (s\<lparr>tags := (tags s)[i := (tags s ! i)[w := f (tags s ! i ! w)]]\<rparr>)
      else Inl OutOfBounds)"

text \<open>An \<open>int\<close> used as a subscript converts to \<open>size_t\<close>.\<close>

definition size_t_of_int :: "int \<Rightarrow> nat" where
  "size_t_of_int i = unat (word_of_int i :: 64 word)"

text \<open>
  \<open>victimize\<close> returns the entry that was in the chosen way and writes the new one, marked
  valid, in its place.
\<close>

definition victimize ::
  "'p eviction_policy_ops \<Rightarrow> 'p cache_state \<Rightarrow> cache_sim_addr_t \<Rightarrow> error + cache_sim_addr_t \<times> 'p cache_state" where
  "victimize ops s addr =
     (case policy s of None \<Rightarrow> Inl NullPolicy | Some p \<Rightarrow>
        (let (way, p1) = pol_next ops p (idx addr); i = unat (idx addr); w = unat way
         in if i < length (tags s) \<and> w < length (tags s ! i) then
              (let victim = tags s ! i ! w;
                   s1 = s\<lparr>tags := (tags s)[i := (tags s ! i)[w := set_valid addr]]\<rparr>
               in Inr (victim, s1\<lparr>policy := Some (pol_insert ops p1 (idx addr) way)\<rparr>))
            else Inl OutOfBounds))"

text \<open>The hit branch of \<open>access\<close>.\<close>

definition access_hit ::
  "'p eviction_policy_ops \<Rightarrow> 'p cache_state \<Rightarrow> cache_sim_addr_t \<Rightarrow> int \<Rightarrow> bool \<Rightarrow> error + 'p cache_state" where
  "access_hit ops s addr hit_way_index store =
     (case (if store then modify_line set_dirty (unat (idx addr)) (size_t_of_int hit_way_index) s
            else Inr s) of
        Inl e \<Rightarrow> Inl e
      | Inr s1 \<Rightarrow>
          (case policy s1 of None \<Rightarrow> Inl NullPolicy
           | Some p \<Rightarrow> Inr (s1\<lparr>policy := Some (pol_update ops p addr hit_way_index)\<rparr>)))"

text \<open>
  The start of the miss branch: the miss is counted, reported on \<open>cerr\<close> when \<open>log\<close> is
  set, and the set is victimized.
\<close>

definition access_miss ::
  "'p eviction_policy_ops \<Rightarrow> 'p cache_state \<Rightarrow> cache_sim_addr_t \<Rightarrow> bool \<Rightarrow> error + cache_sim_addr_t \<times> 'p cache_state" where
  "access_miss ops s addr store =
     (let s1 = s\<lparr>perf_counter := perf_counter s @ [OnMiss store]\<rparr>
      in (case (if log s1 then
                  (case to_uint64 addr (ucast (sets s1)) (ucast (linesz s1)) of
                     Inl e \<Rightarrow> Inl e
                   | Inr a \<Rightarrow> Inr (s1\<lparr>cerr := cerr s1 @ [(name s1, store, a)]\<rparr>))
                else Inr s1) of
            Inl e \<Rightarrow> Inl e
          | Inr s2 \<Rightarrow> victimize ops s2 addr))"

text \<open>The end of the miss branch for a store: \<open>tags[addr.idx][check_tag(addr)].set_dirty()\<close>.\<close>

definition access_miss_store :: "'p cache_state \<Rightarrow> cache_sim_addr_t \<Rightarrow> error + 'p cache_state" where
  "access_miss_store s addr =
     (case check_tag s addr of Inl e \<Rightarrow> Inl e
      | Inr w \<Rightarrow> modify_line set_dirty (unat (idx addr)) (size_t_of_int w) s)"

text \<open>
  \<open>access\<close>. The calls on \<open>miss_handler\<close> are calls of \<open>access\<close> on the next level; the
  second one runs on the state the first one left.
\<close>

function access ::
  "'p eviction_policy_ops \<Rightarrow> 'p cache_sim_t \<Rightarrow> 64 word \<Rightarrow> 64 word \<Rightarrow> bool \<Rightarrow> error + 'p cache_sim_t" where
  "access ops (Cache_sim s mh) raw_addr bytes store =
     (let s0 = s\<lparr>perf_counter := perf_counter s @ [OnAccess store bytes]\<rparr>
      in (case cache_sim_addr_t_of raw_addr (ucast (sets s0)) (ucast (linesz s0)) of
           Inl e \<Rightarrow> Inl e
         | Inr addr \<Rightarrow>
      (case check_tag s0 addr of
           Inl e \<Rightarrow> Inl e
         | Inr hit_way_index \<Rightarrow>
      if hit_way_index \<ge> 0 then
        (case access_hit ops s0 addr hit_way_index store of
           Inl e \<Rightarrow> Inl e
         | Inr s1 \<Rightarrow> Inr (Cache_sim s1 mh))
      else
        (case access_miss ops s0 addr store of
           Inl e \<Rightarrow> Inl e
         | Inr (victim, s1) \<Rightarrow>
        (case (if valid victim \<and> dirty victim then
                 (case (case mh of
                          None \<Rightarrow> Inr None
                        | Some m \<Rightarrow>
                            (case to_uint64 victim (ucast (sets s1)) (ucast (linesz s1)) of
                               Inl e \<Rightarrow> Inl e
                             | Inr dirty_addr \<Rightarrow>
                                 (case access ops m dirty_addr (linesz s1) True of
                                    Inl e \<Rightarrow> Inl e
                                  | Inr m1 \<Rightarrow> Inr (Some m1)))) of
                    Inl e \<Rightarrow> Inl e
                  | Inr mh1 \<Rightarrow> Inr (s1\<lparr>perf_counter := perf_counter s1 @ [OnWriteback]\<rparr>, mh1))
               else Inr (s1, mh)) of
           Inl e \<Rightarrow> Inl e
         | Inr (s2, mh2) \<Rightarrow>
        (case (case mh2 of
                 None \<Rightarrow> Inr None
               | Some m \<Rightarrow>
                   (case to_uint64 addr (ucast (sets s2)) (ucast (linesz s2)) of
                      Inl e \<Rightarrow> Inl e
                    | Inr fill_addr \<Rightarrow>
                        (case access ops m fill_addr (linesz s2) False of
                           Inl e \<Rightarrow> Inl e
                         | Inr m2 \<Rightarrow> Inr (Some m2)))) of
           Inl e \<Rightarrow> Inl e
         | Inr mh3 \<Rightarrow>
        (case (if store then access_miss_store s2 addr else Inr s2) of
           Inl e \<Rightarrow> Inl e
         | Inr s3 \<Rightarrow> Inr (Cache_sim s3 mh3))))))))"
  by pat_completeness auto




section \<open>Clean and invalidate\<close>

text \<open>
  The body of the loop of \<open>clean_invalidate\<close> up to the call of \<open>next_cacheline\<close>.
  \<open>clean && tags[..][..].is_dirty()\<close> reads the entry only when \<open>clean\<close> is set.
\<close>

definition read_line :: "'p cache_state \<Rightarrow> nat \<Rightarrow> nat \<Rightarrow> error + cache_sim_addr_t" where
  "read_line s i w =
     (if i < length (tags s) \<and> w < length (tags s ! i) then Inr (tags s ! i ! w)
      else Inl OutOfBounds)"

definition clean_invalidate_line ::
  "'p cache_state \<Rightarrow> cache_sim_addr_t \<Rightarrow> bool \<Rightarrow> bool \<Rightarrow> error + 'p cache_state" where
  "clean_invalidate_line s cur_addr clean inval =
     (case check_tag s cur_addr of
        Inl e \<Rightarrow> Inl e
      | Inr hit_way_index \<Rightarrow>
          if hit_way_index \<ge> 0 then
            (let i = unat (idx cur_addr); w = size_t_of_int hit_way_index
             in (case (if clean then
                         (case read_line s i w of
                            Inl e \<Rightarrow> Inl e
                          | Inr line \<Rightarrow>
                              if dirty line
                              then modify_line set_clean i w
                                     (s\<lparr>perf_counter := perf_counter s @ [OnWriteback, OnClean]\<rparr>)
                              else Inr s)
                       else Inr s) of
                   Inl e \<Rightarrow> Inl e
                 | Inr s1 \<Rightarrow> if inval then modify_line set_invalid i w s1 else Inr s1))
          else Inr s)"

text \<open>
  The loop \<open>while (cur_addr < end_addr)\<close>. It stops with the error when a subscript
  leaves the tag array; \<open>None\<close> stands for a loop that never ends.
\<close>

partial_function (option) clean_invalidate_loop ::
  "'p cache_state \<Rightarrow> cache_sim_addr_t \<Rightarrow> cache_sim_addr_t \<Rightarrow> bool \<Rightarrow> bool \<Rightarrow> (error + 'p cache_state) option" where
  "clean_invalidate_loop s cur_addr end_addr clean inval =
     (if op_lt cur_addr end_addr then
        (case clean_invalidate_line s cur_addr clean inval of
           Inl e \<Rightarrow> Some (Inl e)
         | Inr s1 \<Rightarrow>
             clean_invalidate_loop s1 (next_cacheline cur_addr (ucast (sets s1))) end_addr clean inval)
      else Some (Inr s))"

text \<open>
  \<open>clean_invalidate\<close>: the range is walked on this level, then the same call goes to the
  miss handler, when there is one.
\<close>

fun clean_invalidate ::
  "'p cache_sim_t \<Rightarrow> 64 word \<Rightarrow> 64 word \<Rightarrow> bool \<Rightarrow> bool \<Rightarrow> (error + 'p cache_sim_t) option" where
  "clean_invalidate (Cache_sim s mh) addr bytes clean inval =
     (case cache_sim_addr_t_of addr (ucast (sets s)) (ucast (linesz s)) of
        Inl e \<Rightarrow> Some (Inl e)
      | Inr cur_addr \<Rightarrow>
     (case cache_sim_addr_t_of (addr + bytes) (ucast (sets s)) (ucast (linesz s)) of
        Inl e \<Rightarrow> Some (Inl e)
      | Inr end_addr \<Rightarrow>
     (case clean_invalidate_loop s cur_addr end_addr clean inval of
        None \<Rightarrow> None
      | Some (Inl e) \<Rightarrow> Some (Inl e)
      | Some (Inr s1) \<Rightarrow>
     (case mh of
        None \<Rightarrow> Some (Inr (Cache_sim s1 None))
      | Some m \<Rightarrow>
          (case clean_invalidate m addr bytes clean inval of
             None \<Rightarrow> None
           | Some (Inl e) \<Rightarrow> Some (Inl e)
           | Some (Inr m1) \<Rightarrow> Some (Inr (Cache_sim s1 (Some m1))))))))"

section \<open>Engines that a program can build\<close>

text \<open>
  The states an engine and the chain below it can be in: built by a constructor, linked
  to a next level, switched to verbose mode, and driven by calls of \<open>access\<close> and
  \<open>clean_invalidate\<close> that return.
\<close>

inductive reachable :: "'p eviction_policy_ops \<Rightarrow> 'p cache_sim_t \<Rightarrow> bool"
  for ops :: "'p eviction_policy_ops" where
  reach_new:
    "cache_sim_t_new ops sets0 ways0 linesz0 name0 eviction_policy = Inr c \<Longrightarrow> reachable ops c"
| reach_new_lfsr:
    "cache_sim_t_new_lfsr ops sets0 ways0 linesz0 name0 = Inr c \<Longrightarrow> reachable ops c"
| reach_set_miss_handler:
    "reachable ops c \<Longrightarrow> reachable ops m \<Longrightarrow> reachable ops (set_miss_handler c m)"
| reach_set_log:
    "reachable ops c \<Longrightarrow> reachable ops (set_log c l)"
| reach_access:
    "reachable ops c \<Longrightarrow> access ops c raw_addr bytes store = Inr c' \<Longrightarrow> reachable ops c'"
| reach_clean_invalidate:
    "reachable ops c \<Longrightarrow> clean_invalidate c addr bytes clean inval = Some (Inr c') \<Longrightarrow>
     reachable ops c'"

text \<open>No two valid entries of a row carry the same tag.\<close>

definition distinct_tags :: "cache_sim_addr_t list \<Rightarrow> bool" where
  "distinct_tags row =
     (\<forall>i < length row. \<forall>j < length row.
        valid (row ! i) \<and> valid (row ! j) \<and> tag (row ! i) = tag (row ! j) \<longrightarrow> i = j)"

definition no_dup_tags :: "'p cache_state \<Rightarrow> bool" where
  "no_dup_tags s = (\<forall>row \<in> set (tags s). distinct_tags row)"

text \<open>A property of every level of a chain.\<close>

fun all_levels :: "('p cache_state \<Rightarrow> bool) \<Rightarrow> 'p cache_sim_t \<Rightarrow> bool" where
  "all_levels P (Cache_sim s mh) = (P s \<and> (case mh of None \<Rightarrow> True | Some m \<Rightarrow> all_levels P m))"

section \<open>Invariants and derived relations\<close>

text \<open>
  What the miss handler \<open>mh\<close> has received when a miss returns with the handler in the
  state \<open>mh'\<close>: the write-back of a valid dirty victim as a store, then the fill as a
  read.
\<close>

definition forwarded ::
  "'p eviction_policy_ops \<Rightarrow> 'p cache_state \<Rightarrow> cache_sim_addr_t \<Rightarrow> cache_sim_addr_t \<Rightarrow>
   'p cache_sim_t option \<Rightarrow> 'p cache_sim_t option \<Rightarrow> bool" where
  "forwarded ops s victim addr mh mh' =
     (case mh of
        None \<Rightarrow> mh' = None
      | Some m \<Rightarrow>
          (\<exists>m1 m2 fill_addr.
             (if valid victim \<and> dirty victim
              then (\<exists>victim_addr. to_uint64 victim (ucast (sets s)) (ucast (linesz s)) = Inr victim_addr \<and>
                      access ops m victim_addr (linesz s) True = Inr m1)
              else m1 = m) \<and>
             to_uint64 addr (ucast (sets s)) (ucast (linesz s)) = Inr fill_addr \<and>
             access ops m1 fill_addr (linesz s) False = Inr m2 \<and> mh' = Some m2))"

text \<open>A cold tag array: no entry is valid.\<close>

definition cold :: "'p cache_state \<Rightarrow> bool" where
  "cold s = (\<forall>row \<in> set (tags s). \<forall>e \<in> set row. \<not> valid e)"

text \<open>
  The invariant of one level: every row has \<open>ways\<close> entries and, when the number of ways
  fits the \<open>int\<close> that \<open>check_tag\<close> returns, no row holds a tag twice.
\<close>

definition level_inv :: "'p cache_state \<Rightarrow> bool" where
  "level_inv s =
     ((\<forall>row \<in> set (tags s). length row = unat (ways s)) \<and>
      (unat (ways s) \<le> 2 ^ 31 \<longrightarrow> no_dup_tags s))"

text \<open>What one call of \<open>access\<close> does to the level it is called on.\<close>

definition local_access ::
  "'p eviction_policy_ops \<Rightarrow> 'p cache_state \<Rightarrow> 64 word \<Rightarrow> 64 word \<Rightarrow> bool \<Rightarrow> 'p cache_state \<Rightarrow> bool" where
  "local_access ops s raw_addr bytes store s' =
     (\<exists>addr hit.
        cache_sim_addr_t_of raw_addr (ucast (sets s)) (ucast (linesz s)) = Inr addr \<and>
        check_tag s addr = Inr hit \<and>
        (if 0 \<le> hit
         then access_hit ops (s\<lparr>perf_counter := perf_counter s @ [OnAccess store bytes]\<rparr>) addr hit store = Inr s'
         else (\<exists>victim s1.
                 access_miss ops (s\<lparr>perf_counter := perf_counter s @ [OnAccess store bytes]\<rparr>) addr store =
                   Inr (victim, s1) \<and>
                 (let s2 = (if valid victim \<and> dirty victim
                            then s1\<lparr>perf_counter := perf_counter s1 @ [OnWriteback]\<rparr> else s1)
                  in if store then access_miss_store s2 addr = Inr s' else s' = s2))))"

text \<open>The state of a chain after any number of calls of \<open>access\<close> that returned.\<close>

definition accessed :: "'p eviction_policy_ops \<Rightarrow> 'p cache_sim_t \<Rightarrow> 'p cache_sim_t \<Rightarrow> bool" where
  "accessed ops = (\<lambda>m m'. \<exists>raw_addr bytes store. access ops m raw_addr bytes store = Inr m')\<^sup>*\<^sup>*"

text \<open>A setter that changes neither the tag nor makes an entry valid.\<close>

definition flags_only :: "(cache_sim_addr_t \<Rightarrow> cache_sim_addr_t) \<Rightarrow> bool" where
  "flags_only f = (\<forall>x. tag (f x) = tag x \<and> (valid (f x) \<longrightarrow> valid x))"

text \<open>
  The tag array \<open>t1\<close> has the shape and the tags of \<open>t\<close>, and no entry is valid in
  it that is not valid in \<open>t\<close>.
\<close>

definition fewer_valid :: "cache_sim_addr_t list list \<Rightarrow> cache_sim_addr_t list list \<Rightarrow> bool" where
  "fewer_valid t t1 =
     (length t1 = length t \<and>
      (\<forall>r < length t. length (t1 ! r) = length (t ! r) \<and>
         (\<forall>k < length (t ! r). tag (t1 ! r ! k) = tag (t ! r ! k) \<and>
                                 (valid (t1 ! r ! k) \<longrightarrow> valid (t ! r ! k)))))"

section \<open>Engines within the range of the types\<close>

text \<open>
  Modelled from the spec: the contract of an eviction policy. The spec has \<open>next\<close> return a
  way in \<open>[0, ways)\<close>; the policy classes are not among the sources. \<open>G p se w\<close> says that
  the policy object \<open>p\<close> belongs to an engine of \<open>se\<close> sets and \<open>w\<close> ways. A policy is
  within the contract when a new object of an engine with at least one way belongs to that
  engine, the three methods keep it so, and \<open>next\<close> then returns a way below \<open>w\<close>.
\<close>

definition policy_contract :: "'p eviction_policy_ops \<Rightarrow> ('p \<Rightarrow> nat \<Rightarrow> nat \<Rightarrow> bool) \<Rightarrow> bool" where
  "policy_contract ops G =
     ((\<forall>k se w. 0 < unat w \<longrightarrow> G (pol_new ops k se w) (unat se) (unat w)) \<and>
      (\<forall>p se w i. G p se w \<and> unat i < se \<longrightarrow>
         unat (fst (pol_next ops p i)) < w \<and> G (snd (pol_next ops p i)) se w) \<and>
      (\<forall>p se w i y. G p se w \<and> unat i < se \<and> unat y < w \<longrightarrow> G (pol_insert ops p i y) se w) \<and>
      (\<forall>p se w a h. G p se w \<and> unat (idx a) < se \<and> 0 \<le> h \<and> nat h < w \<longrightarrow>
         G (pol_update ops p a h) se w))"

text \<open>
  A level whose geometry is within the range of the types that carry it: the codec takes
  \<open>sets\<close> and \<open>linesz\<close> as \<open>uint32_t\<close> and takes their logarithm, and \<open>check_tag\<close>
  returns the way as an \<open>int\<close>. The tag array has the shape that \<open>init\<close> gives it.
\<close>

definition geometry_fits :: "'p cache_state \<Rightarrow> bool" where
  "geometry_fits s =
     (sets s \<noteq> 0 \<and> unat (sets s) < 2 ^ 32 \<and> linesz s \<noteq> 0 \<and> unat (linesz s) < 2 ^ 32 \<and>
      length (tags s) = unat (sets s) \<and> (\<forall>row \<in> set (tags s). length row = unat (ways s)) \<and>
      unat (ways s) \<le> 2 ^ 31)"

text \<open>Such a level with a policy object that belongs to it.\<close>

definition level_ok :: "('p \<Rightarrow> nat \<Rightarrow> nat \<Rightarrow> bool) \<Rightarrow> 'p cache_state \<Rightarrow> bool" where
  "level_ok G s =
     (geometry_fits s \<and>
      (\<exists>p. policy s = Some p \<and> G p (unat (sets s)) (unat (ways s))))"

text \<open>
  The range \<open>[addr, addr + bytes)\<close> on one level: the walk of \<open>clean_invalidate\<close> is empty,
  or the range ends in the tag of its first line or in the next tag. A longer walk
  goes on after \<open>next_cacheline\<close> has left the last set.
\<close>

definition walk_in_range :: "64 word \<Rightarrow> 64 word \<Rightarrow> 'p cache_state \<Rightarrow> bool" where
  "walk_in_range addr bytes s =
     (case cache_sim_addr_t_of addr (ucast (sets s)) (ucast (linesz s)) of
        Inl e \<Rightarrow> False
      | Inr cur_addr \<Rightarrow>
          (case cache_sim_addr_t_of (addr + bytes) (ucast (sets s)) (ucast (linesz s)) of
             Inl e \<Rightarrow> False
           | Inr end_addr \<Rightarrow>
               \<not> op_lt cur_addr end_addr \<or> tag end_addr = tag cur_addr \<or>
               tag end_addr = tag cur_addr + 1))"

section \<open>A chain of two caches under FIFO\<close>

text \<open>
  Modelled from the spec: the FIFO policy keeps, per set, the ways in the order of their
  insertion; \<open>next\<close> returns the oldest, \<open>insert\<close> makes the filled way the newest, and
  \<open>update\<close> does nothing. A new queue holds the ways in ascending order.
\<close>

definition fifo_ops :: "nat list list eviction_policy_ops" where
  "fifo_ops =
     \<lparr>pol_new = (\<lambda>k se w. replicate (unat se) [0..<unat w]),
      pol_next = (\<lambda>p i. (word_of_nat (hd (p ! unat i)), p)),
      pol_insert = (\<lambda>p i w. p[unat i := remove1 (unat w) (p ! unat i) @ [unat w]]),
      pol_update = (\<lambda>p a w. p)\<rparr>"

text \<open>
  The policy objects of \<open>fifo_ops\<close> that belong to an engine of \<open>se\<close> sets and \<open>w\<close> ways:
  one queue per set, none empty, holding ways below \<open>w\<close>.
\<close>

definition fifo_queues :: "nat list list \<Rightarrow> nat \<Rightarrow> nat \<Rightarrow> bool" where
  "fifo_queues p se w = (length p = se \<and> (\<forall>q \<in> set p. q \<noteq> [] \<and> (\<forall>x \<in> set q. x < w)))"

text \<open>
  Two levels of 2 sets, 2 ways and lines of 8 bytes, as the constructor leaves them, and
  the states they go through in the runs below.
\<close>

definition wit_l2_cold :: "nat list list cache_state" where
  "wit_l2_cold =
     \<lparr>sets = 2, ways = 2, linesz = 8,
      tags = [[cache_sim_addr_t_default, cache_sim_addr_t_default],
              [cache_sim_addr_t_default, cache_sim_addr_t_default]],
      policy = Some [[0, 1], [0, 1]], name = ''L2'', log = False, perf_counter = [], cerr = []\<rparr>"

definition wit_l1_cold :: "nat list list cache_state" where
  "wit_l1_cold = wit_l2_cold\<lparr>name := ''L1''\<rparr>"

definition wit_cold :: "nat list list cache_sim_t" where
  "wit_cold = Cache_sim wit_l1_cold (Some (Cache_sim wit_l2_cold None))"

definition wit_line :: "32 word \<Rightarrow> bool \<Rightarrow> cache_sim_addr_t" where
  "wit_line t d = \<lparr>valid = True, dirty = d, tag = t, idx = 0\<rparr>"

definition wit_one :: "nat list list cache_sim_t" where
  "wit_one =
     Cache_sim
       (wit_l1_cold\<lparr>tags := [[wit_line 0 False, cache_sim_addr_t_default],
                               [cache_sim_addr_t_default, cache_sim_addr_t_default]],
                     policy := Some [[1, 0], [0, 1]],
                     perf_counter := [OnAccess False 4, OnMiss False]\<rparr>)
       (Some (Cache_sim
          (wit_l2_cold\<lparr>tags := [[wit_line 0 False, cache_sim_addr_t_default],
                                  [cache_sim_addr_t_default, cache_sim_addr_t_default]],
                        policy := Some [[1, 0], [0, 1]],
                        perf_counter := [OnAccess False 8, OnMiss False]\<rparr>) None))"

definition wit_hit :: "nat list list cache_sim_t" where
  "wit_hit =
     Cache_sim
       (wit_l1_cold\<lparr>tags := [[wit_line 0 True, cache_sim_addr_t_default],
                               [cache_sim_addr_t_default, cache_sim_addr_t_default]],
                     policy := Some [[1, 0], [0, 1]],
                     perf_counter := [OnAccess False 4, OnMiss False, OnAccess True 2]\<rparr>)
       (miss_handler wit_one)"

definition wit_two_l1 :: "nat list list cache_state" where
  "wit_two_l1 =
     wit_l1_cold\<lparr>tags := [[wit_line 0 True, wit_line 1 True],
                             [cache_sim_addr_t_default, cache_sim_addr_t_default]],
                   policy := Some [[0, 1], [0, 1]],
                   perf_counter := [OnAccess False 4, OnMiss False, OnAccess True 2,
                                    OnAccess True 4, OnMiss True]\<rparr>"

definition wit_two_l2 :: "nat list list cache_state" where
  "wit_two_l2 =
     wit_l2_cold\<lparr>tags := [[wit_line 0 False, wit_line 1 False],
                             [cache_sim_addr_t_default, cache_sim_addr_t_default]],
                   policy := Some [[0, 1], [0, 1]],
                   perf_counter := [OnAccess False 8, OnMiss False, OnAccess False 8, OnMiss False]\<rparr>"

definition wit_two :: "nat list list cache_sim_t" where
  "wit_two = Cache_sim wit_two_l1 (Some (Cache_sim wit_two_l2 None))"

definition wit_three_l2 :: "nat list list cache_state" where
  "wit_three_l2 =
     wit_l2_cold\<lparr>tags := [[wit_line 2 False, wit_line 1 False],
                             [cache_sim_addr_t_default, cache_sim_addr_t_default]],
                   policy := Some [[1, 0], [0, 1]],
                   perf_counter := [OnAccess False 8, OnMiss False, OnAccess False 8, OnMiss False,
                                    OnAccess True 8, OnAccess False 8, OnMiss False, OnWriteback]\<rparr>"

definition wit_three :: "nat list list cache_sim_t" where
  "wit_three =
     Cache_sim
       (wit_l1_cold\<lparr>tags := [[wit_line 2 True, wit_line 1 True],
                               [cache_sim_addr_t_default, cache_sim_addr_t_default]],
                     policy := Some [[1, 0], [0, 1]],
                     perf_counter := [OnAccess False 4, OnMiss False, OnAccess True 2,
                                      OnAccess True 4, OnMiss True,
                                      OnAccess True 4, OnMiss True, OnWriteback]\<rparr>)
       (Some (Cache_sim wit_three_l2 None))"

definition wit_cleaned :: "nat list list cache_sim_t" where
  "wit_cleaned =
     Cache_sim
       (wit_two_l1\<lparr>tags := [[cache_sim_addr_t_default, wit_line 1 True],
                              [cache_sim_addr_t_default, cache_sim_addr_t_default]],
                    perf_counter := perf_counter wit_two_l1 @ [OnWriteback, OnClean]\<rparr>)
       (Some (Cache_sim
          (wit_two_l2\<lparr>tags := [[cache_sim_addr_t_default, wit_line 1 False],
                                 [cache_sim_addr_t_default, cache_sim_addr_t_default]]\<rparr>) None))"

definition wit_dirty :: "nat list list cache_sim_t" where
  "wit_dirty =
     Cache_sim
       (wit_l1_cold\<lparr>tags := [[wit_line 0 True, cache_sim_addr_t_default],
                               [cache_sim_addr_t_default, cache_sim_addr_t_default]],
                     policy := Some [[1, 0], [0, 1]],
                     perf_counter := [OnAccess True 4, OnMiss True]\<rparr>) None"

section \<open>Engines of more than \<open>2 ^ 31\<close> ways\<close>

text \<open>
  Modelled from the spec: the contract of \<open>next\<close> allows any way in \<open>[0, ways)\<close>, and the
  random strategy can return any of them. \<open>scripted_ops\<close> is the policy that returns
  the ways of a given list, one for each insertion, and way 0 once the list is used up.
\<close>

definition scripted_ops :: "64 word list \<Rightarrow> 64 word list eviction_policy_ops" where
  "scripted_ops script =
     \<lparr>pol_new = (\<lambda>k se w. script),
      pol_next = (\<lambda>p i. (case p of [] \<Rightarrow> 0 | y # ys \<Rightarrow> y, p)),
      pol_insert = (\<lambda>p i w. tl p),
      pol_update = (\<lambda>p a w. p)\<rparr>"

text \<open>
  One set of \<open>2 ^ 31 + 1\<close> ways and lines of 8 bytes, as the constructor leaves it, after
  a read of address 0 that fills the last way, and after a second read of address 0.
\<close>

definition far_row :: "cache_sim_addr_t list" where
  "far_row = replicate 2147483649 cache_sim_addr_t_default"

definition far_cold :: "64 word list cache_state" where
  "far_cold =
     \<lparr>sets = 1, ways = 2147483649, linesz = 8, tags = [far_row],
      policy = Some [2147483648, 0], name = ''L1'', log = False, perf_counter = [], cerr = []\<rparr>"

definition far_one :: "64 word list cache_state" where
  "far_one =
     far_cold\<lparr>tags := [far_row[2147483648 := wit_line 0 False]], policy := Some [0],
               perf_counter := [OnAccess False 1, OnMiss False]\<rparr>"

definition far_two :: "64 word list cache_state" where
  "far_two =
     far_cold\<lparr>tags := [far_row[2147483648 := wit_line 0 False, 0 := wit_line 0 False]],
               policy := Some [],
               perf_counter := [OnAccess False 1, OnMiss False, OnAccess False 1, OnMiss False]\<rparr>"

text \<open>
  One set of \<open>2 ^ 32 + 6\<close> ways, as the constructor leaves it, after \<open>victimize\<close> has
  filled the last way, and after the store of address 0 has returned.
\<close>

definition wrap_row :: "cache_sim_addr_t list" where
  "wrap_row = replicate 4294967302 cache_sim_addr_t_default"

definition wrap_cold :: "64 word list cache_state" where
  "wrap_cold =
     \<lparr>sets = 1, ways = 4294967302, linesz = 8, tags = [wrap_row],
      policy = Some [4294967301], name = ''L1'', log = False, perf_counter = [], cerr = []\<rparr>"

definition wrap_filled :: "64 word list cache_state" where
  "wrap_filled =
     wrap_cold\<lparr>tags := [wrap_row[4294967301 := wit_line 0 False]], policy := Some [],
                perf_counter := [OnAccess True 1, OnMiss True]\<rparr>"

definition wrap_stored :: "64 word list cache_state" where
  "wrap_stored =
     wrap_filled\<lparr>tags := [wrap_row[4294967301 := wit_line 0 False,
                                      5 := \<lparr>valid = False, dirty = True, tag = 0, idx = 0\<rparr>]]\<rparr>"

text \<open>
  One set of \<open>2 ^ 32 + 2\<close> ways: as the constructor leaves it, after each of five accesses
  (two reads and a store of address 0, a read of address 8, a store of address 16), and
  after each of two calls of \<open>clean_invalidate(0, 8, true, true)\<close>.
\<close>

definition wide_ops :: "64 word list eviction_policy_ops" where
  "wide_ops = scripted_ops [2147483648, 4294967297, 0, 2147483648, 1]"

definition wide_row :: "cache_sim_addr_t list" where
  "wide_row = replicate 4294967298 cache_sim_addr_t_default"

definition wide_cold :: "64 word list cache_state" where
  "wide_cold =
     \<lparr>sets = 1, ways = 4294967298, linesz = 8, tags = [wide_row],
      policy = Some [2147483648, 4294967297, 0, 2147483648, 1], name = ''L1'', log = False,
      perf_counter = [], cerr = []\<rparr>"

definition wide_one :: "64 word list cache_state" where
  "wide_one =
     wide_cold\<lparr>tags := [wide_row[2147483648 := wit_line 0 False]],
                policy := Some [4294967297, 0, 2147483648, 1],
                perf_counter := [OnAccess False 1, OnMiss False]\<rparr>"

definition wide_two :: "64 word list cache_state" where
  "wide_two =
     wide_cold\<lparr>tags := [wide_row[2147483648 := wit_line 0 False, 4294967297 := wit_line 0 False]],
                policy := Some [0, 2147483648, 1],
                perf_counter := [OnAccess False 1, OnMiss False, OnAccess False 1, OnMiss False]\<rparr>"

definition wide_three :: "64 word list cache_state" where
  "wide_three =
     wide_cold\<lparr>tags := [wide_row[2147483648 := wit_line 0 False, 4294967297 := wit_line 0 False,
                                   0 := wit_line 0 True]],
                policy := Some [2147483648, 1],
                perf_counter := [OnAccess False 1, OnMiss False, OnAccess False 1, OnMiss False,
                                 OnAccess True 1, OnMiss True]\<rparr>"

definition wide_four :: "64 word list cache_state" where
  "wide_four =
     wide_cold\<lparr>tags := [wide_row[2147483648 := wit_line 0 False, 4294967297 := wit_line 0 False,
                                   0 := wit_line 0 True, 2147483648 := wit_line 1 False]],
                policy := Some [1],
                perf_counter := [OnAccess False 1, OnMiss False, OnAccess False 1, OnMiss False,
                                 OnAccess True 1, OnMiss True, OnAccess False 1, OnMiss False]\<rparr>"

definition wide_five :: "64 word list cache_state" where
  "wide_five =
     wide_cold\<lparr>tags := [wide_row[2147483648 := wit_line 0 False, 4294967297 := wit_line 0 False,
                                   0 := wit_line 0 True, 2147483648 := wit_line 1 False,
                                   1 := wit_line 2 True]],
                policy := Some [],
                perf_counter := [OnAccess False 1, OnMiss False, OnAccess False 1, OnMiss False,
                                 OnAccess True 1, OnMiss True, OnAccess False 1, OnMiss False,
                                 OnAccess True 1, OnMiss True]\<rparr>"

definition wide_six :: "64 word list cache_state" where
  "wide_six =
     wide_five\<lparr>tags := [wide_row[2147483648 := wit_line 0 False, 4294967297 := wit_line 0 False,
                                   0 := cache_sim_addr_t_default, 2147483648 := wit_line 1 False,
                                   1 := wit_line 2 True]],
                perf_counter := perf_counter wide_five @ [OnWriteback, OnClean]\<rparr>"

definition wide_seven :: "64 word list cache_state" where
  "wide_seven =
     wide_five\<lparr>tags := [wide_row[2147483648 := wit_line 0 False, 4294967297 := wit_line 0 False,
                                   0 := cache_sim_addr_t_default, 2147483648 := wit_line 1 False,
                                   1 := \<lparr>valid = False, dirty = False, tag = 2, idx = 0\<rparr>]],
                perf_counter := perf_counter wide_five @ [OnWriteback, OnClean, OnWriteback, OnClean]\<rparr>"

section \<open>Termination of \<open>access\<close>\<close>

lemma levels_Cache_sim:
  "levels (Cache_sim s mh) = (case mh of None \<Rightarrow> 1 | Some m \<Rightarrow> Suc (levels m))"
  by (cases mh) simp_all

lemma access_levels:
  "access_dom (ops, c, raw_addr, bytes, store) \<Longrightarrow>
   access ops c raw_addr bytes store = Inr c' \<Longrightarrow> levels c' = levels c"
proof (induction ops c raw_addr bytes store arbitrary: c' rule: access.pinduct)
  case (1 ops s mh raw_addr bytes store)
  let ?s0 = "s\<lparr>perf_counter := perf_counter s @ [OnAccess store bytes]\<rparr>"
  from "1.prems" "1.hyps" obtain addr hit where
    addr: "cache_sim_addr_t_of raw_addr (ucast (sets ?s0)) (ucast (linesz ?s0)) = Inr addr"
    and hit: "check_tag ?s0 addr = Inr hit"
    by (simp add: access.psimps Let_def split: sum.splits)
  show ?case
  proof (cases "hit \<ge> 0")
    case True
    with "1.prems" "1.hyps" addr hit show ?thesis
      by (auto simp add: access.psimps Let_def levels_Cache_sim split: sum.splits)
  next
    case False
    from "1.prems" "1.hyps" addr hit False obtain victim s1 where
      miss: "access_miss ops ?s0 addr store = Inr (victim, s1)"
      by (simp add: access.psimps Let_def split: sum.splits prod.splits)
    note IH1 = "1.IH"(1)[OF refl, simplified, OF addr[simplified] hit False miss[simplified] refl]
    note IH2 = "1.IH"(2)[OF refl, simplified, OF addr[simplified] hit False miss[simplified] refl]
    note eq = "1.prems"[unfolded access.psimps[OF "1.hyps"] Let_def, simplified addr hit False miss sum.case prod.case if_False]
    show ?thesis
    proof (cases mh)
      case None
      with eq show ?thesis
        by (auto simp: levels_Cache_sim split: sum.splits if_splits)
    next
      case (Some m)
      show ?thesis
      proof (cases "valid victim \<and> dirty victim")
        case True
        with eq Some obtain a1 m1 a2 m2 s2 s3 where
          "to_uint64 victim (ucast (sets s1)) (ucast (linesz s1)) = Inr a1"
          "access ops m a1 (linesz s1) True = Inr m1"
          "s2 = s1\<lparr>perf_counter := perf_counter s1 @ [OnWriteback]\<rparr>"
          "to_uint64 addr (ucast (sets s2)) (ucast (linesz s2)) = Inr a2"
          "access ops m1 a2 (linesz s2) False = Inr m2"
          "c' = Cache_sim s3 (Some m2)"
          by (auto split: sum.splits)
        with IH1[OF True Some] IH2[of _ s2 "Some m1" m1 a2 m2] True Some
        show ?thesis by (simp add: levels_Cache_sim)
      next
        case False
        with eq Some obtain a2 m2 s3 where
          "to_uint64 addr (ucast (sets s1)) (ucast (linesz s1)) = Inr a2"
          "access ops m a2 (linesz s1) False = Inr m2"
          "c' = Cache_sim s3 (Some m2)"
          by (auto split: sum.splits)
        with IH2[of _ s1 "Some m" m a2 m2] False Some
        show ?thesis by (simp add: levels_Cache_sim)
      qed
    qed
  qed
qed

termination access
proof (relation "measure (\<lambda>(ops, c, raw_addr, bytes, store). levels c)", goal_cases)
  case 1
  show ?case by simp
next
  case (2 ops s mh raw_addr bytes store x b ba baa xa y x2 bb)
  then show ?case by simp
next
  case (3 ops s mh raw_addr bytes store x b ba baa xa y bab xb ya x2 bac)
  show ?case
  proof (cases "valid xa \<and> dirty xa")
    case True
    with 3 obtain m a1 where "mh = Some m"
      "to_uint64 xa (ucast (sets y)) (ucast (linesz y)) = Inr a1"
      "access ops m a1 (linesz y) True = Inr x2"
      by (auto split: sum.splits option.splits)
    with 3(11)[OF True this(1,2)] access_levels[of ops m a1 "linesz y" True x2]
    show ?thesis by simp
  next
    case False
    with 3 show ?thesis by auto 
  qed
qed

section \<open>The address codec\<close>

lemma replicate_numeral_Cons: "replicate (numeral n) v = v # replicate (pred_numeral n) v"
  using replicate_Suc [of "pred_numeral n" v] by (simp only: numeral_eq_Suc)

lemma upt_2: "[0..<2] = [0, Suc 0]"
  by (simp add: upt_rec)

lemma next_cacheline_idx: "idx (next_cacheline a se) = idx a + 1"
  by (simp add: next_cacheline_def Let_def)

lemma next_cacheline_tag:
  "tag (next_cacheline a se) = (if idx a = se - 1 then tag a + 1 else tag a)"
  by (simp add: next_cacheline_def Let_def)

lemma next_cacheline_valid: "valid (next_cacheline a se) = valid a"
  by (simp add: next_cacheline_def Let_def)

text \<open>
  Claim C9. \<open>a == b\<close> holds exactly when both addresses are valid and their tags are
  equal; when one of the two is invalid, neither \<open>a < b\<close> nor \<open>a == b\<close> holds.
\<close>

theorem op_eq_op_lt_valid:
  "(op_eq a b \<longleftrightarrow> valid a \<and> valid b \<and> tag a = tag b) \<and>
   (\<not> valid a \<or> \<not> valid b \<longrightarrow> \<not> op_lt a b \<and> \<not> op_eq a b)"
  by (auto simp: op_eq_def op_lt_def)

theorem op_eq_op_lt_valid_witness:
  "\<not> valid cache_sim_addr_t_default \<and>
   \<not> op_lt cache_sim_addr_t_default cache_sim_addr_t_default \<and>
   \<not> op_eq cache_sim_addr_t_default cache_sim_addr_t_default"
  using op_eq_op_lt_valid [of cache_sim_addr_t_default cache_sim_addr_t_default]
  by (simp add: cache_sim_addr_t_default_def)

text \<open>
  Claim C4. \<open>next_cacheline\<close> on the last set of a cache of four sets: the tag is
  incremented, and the set index is incremented as well, to 4, where the claim has it
  wrap to 0 and stay below the number of sets.
\<close>

theorem next_cacheline_last_set:
  "next_cacheline \<lparr>valid = True, dirty = False, tag = 0, idx = 3\<rparr> 4 =
     \<lparr>valid = True, dirty = False, tag = 1, idx = 4\<rparr>"
  by (simp add: next_cacheline_def)

text \<open>Off the last set the step is the one of the claim; on it the index leaves the range.\<close>

lemma next_cacheline_inner:
  "idx a \<noteq> se - 1 \<Longrightarrow> next_cacheline a se = a\<lparr>idx := idx a + 1\<rparr>"
  by (simp add: next_cacheline_def)

lemma next_cacheline_last:
  "idx a = se - 1 \<Longrightarrow> next_cacheline a se = a\<lparr>tag := tag a + 1, idx := se\<rparr>"
  by (simp add: next_cacheline_def)

text \<open>
  Claim C1. The address \<open>2 ^ 38\<close> is aligned to lines of 64 bytes, and 4 sets of
  64-byte lines are a valid geometry; decomposing it and recomposing the result gives 0:
  the shifted address \<open>2 ^ 32\<close> does not fit the 32-bit local \<open>stripped\<close>.
\<close>

theorem roundtrip_truncates:
  "line_aligned 0x4000000000 64 \<and> is_pow2 (4 :: 32 word) \<and> is_pow2 (64 :: 32 word) \<and>
   (8 :: 32 word) \<le> 64 \<and>
   (case cache_sim_addr_t_of 0x4000000000 4 64 of Inl e \<Rightarrow> Inl e | Inr d \<Rightarrow> to_uint64 d 4 64) = Inr 0"
  by (simp add: line_aligned_def is_pow2_def cache_sim_addr_t_of_def to_uint64_def log2_u32_def
      floor_log2.simps)

text \<open>
  Below \<open>2 ^ 32\<close> lines the round trip holds: for \<open>2 ^ k\<close> sets and lines of
  \<open>2 ^ j\<close> bytes, an aligned address whose line number fits 32 bits is recomposed.
\<close>

lemma floor_log2_pow: "floor_log2 (2 ^ k) = k"
proof (induction k)
  case 0
  show ?case by (simp add: floor_log2.simps)
next
  case (Suc k)
  have "(2::nat) ^ Suc k \<ge> 2" by (simp add: self_le_power)
  then show ?case using Suc by (subst floor_log2.simps) simp
qed

lemma log2_u32_pow: "k < 32 \<Longrightarrow> log2_u32 (2 ^ k) = Inr k"
proof -
  assume k: "k < 32"
  have "(2::32 word) ^ k = word_of_nat (2 ^ k)" by simp
  then have "unat ((2::32 word) ^ k) = 2 ^ k mod 2 ^ 32" by (simp only: unat_of_nat) simp
  moreover from k have "(2::nat) ^ k < 2 ^ 32" by (intro power_strict_increasing) simp_all
  ultimately have "unat ((2::32 word) ^ k) = 2 ^ k" by (simp only: mod_less)
  moreover from k have "(2::32 word) ^ k \<noteq> 0" by (simp add: exp_eq_zero_iff)
  ultimately show ?thesis by (simp add: log2_u32_def floor_log2_pow)
qed

lemma split_join_32: "push_bit k (drop_bit k w) OR take_bit k w = (w :: 32 word)"
  by (rule bit_word_eqI) (auto simp: bit_simps)

lemma and_pow_minus_1: "w AND (2 ^ k - 1) = take_bit k (w :: 32 word)"
  by (simp add: take_bit_eq_mask mask_eq_exp_minus_1)

lemma roundtrip_below:
  assumes k: "k < 32" and j: "j < 32"
    and aligned: "take_bit j a = 0" and fits: "unat a < 2 ^ (32 + j)"
  shows "(case cache_sim_addr_t_of a (2 ^ k) (2 ^ j) of
            Inl e \<Rightarrow> Inl e | Inr d \<Rightarrow> to_uint64 d (2 ^ k) (2 ^ j)) = Inr a"
proof -
  let ?stripped = "ucast (drop_bit j a) :: 32 word"
  have "(ucast (push_bit k (drop_bit k ?stripped)) :: 64 word) OR ucast (take_bit k ?stripped) =
        ucast (push_bit k (drop_bit k ?stripped) OR take_bit k ?stripped)"
    by (rule bit_word_eqI) (auto simp: bit_simps)
  also have "\<dots> = ucast ?stripped" by (simp only: split_join_32)
  also have "\<dots> = take_bit 32 (drop_bit j a)"
    by (rule bit_word_eqI) (auto simp: bit_simps)
  also have "\<dots> = drop_bit j a"
  proof -
    from fits have "unat a div 2 ^ j < 2 ^ 32"
      by (simp add: less_mult_imp_div_less power_add)
    moreover have "unat (drop_bit j a) = unat a div 2 ^ j"
      using unat_drop_bit_eq[of j a] drop_bit_eq_div[of j "unat a"] by (rule trans)
    ultimately have "take_bit 32 (unat (drop_bit j a)) = unat (drop_bit j a)"
      by (simp only: take_bit_nat_eq_self)
    then show ?thesis
      by (simp add: word_unat_eq_iff unsigned_take_bit_eq)
  qed
  finally have join: "(ucast (push_bit k (drop_bit k ?stripped)) :: 64 word) OR ucast (take_bit k ?stripped) =
        drop_bit j a" .
  have unshift: "push_bit j (drop_bit j a) = a"
    using aligned by (metis add.right_neutral bits_ident)
  have dec: "cache_sim_addr_t_of a (2 ^ k) (2 ^ j) =
     Inr \<lparr>valid = True, dirty = False, tag = drop_bit k ?stripped, idx = take_bit k ?stripped\<rparr>"
    by (simp add: cache_sim_addr_t_of_def log2_u32_pow[OF k] log2_u32_pow[OF j] Let_def
        and_pow_minus_1)
  have recomp: "to_uint64 \<lparr>valid = True, dirty = False, tag = drop_bit k ?stripped,
                        idx = take_bit k ?stripped\<rparr> (2 ^ k) (2 ^ j) =
     Inr (push_bit j ((ucast (push_bit k (drop_bit k ?stripped)) :: 64 word) OR
                      ucast (take_bit k ?stripped)))"
    by (simp add: to_uint64_def log2_u32_pow[OF k] log2_u32_pow[OF j] Let_def del: push_bit_or)
  show ?thesis by (simp only: dec sum.case recomp join unshift)
qed

section \<open>Construction\<close>

text \<open>Invalid numbers of sets and invalid line sizes are refused before anything is allocated.\<close>

lemma init_rejects_geometry:
  "sets s = 0 \<or> sets s AND (sets s - 1) \<noteq> 0 \<or> linesz s < 8 \<or> linesz s AND (linesz s - 1) \<noteq> 0 \<Longrightarrow>
   init ops s eviction_policy = Inl ConfigError"
  by (auto simp: init_def)

lemma create_eviction_policy_None:
  "create_eviction_policy ops s eviction_policy = None \<longleftrightarrow> \<not> policy_is_valid eviction_policy"
  by (simp add: create_eviction_policy_def policy_is_valid_def)

text \<open>
  Claim C5. The constructor with five arguments builds an engine of zero ways, with its four
  empty rows of tags allocated; and it builds an engine for the policy name \<open>plru\<close>, which
  \<open>policy_is_valid\<close> refuses, with its rows allocated and a null policy.
\<close>

theorem constructor_accepts_invalid:
  "cache_sim_t_new fifo_ops 4 0 8 ''L1'' ''fifo'' =
     Inr (Cache_sim \<lparr>sets = 4, ways = 0, linesz = 8, tags = [[], [], [], []],
                      policy = Some [[], [], [], []],
                      name = ''L1'', log = False, perf_counter = [], cerr = []\<rparr> None) \<and>
   \<not> policy_is_valid ''plru'' \<and>
   cache_sim_t_new fifo_ops 2 1 8 ''L1'' ''plru'' =
     Inr (Cache_sim \<lparr>sets = 2, ways = 1, linesz = 8,
                      tags = [[cache_sim_addr_t_default], [cache_sim_addr_t_default]],
                      policy = None, name = ''L1'', log = False, perf_counter = [], cerr = []\<rparr> None)"
  by (simp add: cache_sim_t_new_def init_def create_eviction_policy_def policy_is_valid_def
      fifo_ops_def replicate_numeral_Cons)

section \<open>Lookup\<close>

lemma std_find_le: "std_find row a \<le> length row"
  by (induction row) auto

lemma std_find_hit: "std_find row a < length row \<Longrightarrow> op_eq (row ! std_find row a) a"
  by (induction row) (auto split: if_splits)

lemma std_find_before: "j < std_find row a \<Longrightarrow> \<not> op_eq (row ! j) a"
  by (induction row arbitrary: j) (auto split: if_splits simp: nth_Cons')

lemma std_find_none: "std_find row a = length row \<longleftrightarrow> (\<forall>e \<in> set row. \<not> op_eq e a)"
  by (induction row) auto

lemma std_find_first:
  "w < length row \<Longrightarrow> op_eq (row ! w) a \<Longrightarrow> \<forall>j < w. \<not> op_eq (row ! j) a \<Longrightarrow> std_find row a = w"
proof (induction row arbitrary: w)
  case Nil
  then show ?case by simp
next
  case (Cons x xs)
  show ?case
  proof (cases w)
    case 0
    with Cons.prems show ?thesis by simp
  next
    case (Suc v)
    with Cons.prems have "\<not> op_eq x a" by auto
    moreover from Suc Cons.prems have "std_find xs a = v"
      by (intro Cons.IH) auto
    ultimately show ?thesis using Suc by simp
  qed
qed

lemma sint_way: "d < 2 ^ 31 \<Longrightarrow> sint (word_of_nat d :: 32 word) = int d"
proof -
  assume d: "d < 2 ^ 31"
  have "sint (word_of_int (int d) :: 32 word) = signed_take_bit (LENGTH(32) - 1) (int d)"
    by (rule sint_sbintrunc')
  also have "\<dots> = int d"
    using d by (simp add: signed_take_bit_int_eq_self_iff)
  finally show ?thesis by simp
qed

lemma size_t_of_int_nat: "d < 2 ^ 64 \<Longrightarrow> size_t_of_int (int d) = d"
  by (simp add: size_t_of_int_def unat_of_nat)

lemma size_t_of_int_uint [simp]: "size_t_of_int (uint (w :: 64 word)) = unat w"
  by (simp add: size_t_of_int_def)


declare access.simps [simp del]

lemma check_tag_perf [simp]: "check_tag (s\<lparr>perf_counter := x\<rparr>) a = check_tag s a"
  by (simp add: check_tag_def)

lemma check_tag_cerr [simp]: "check_tag (s\<lparr>cerr := x\<rparr>) a = check_tag s a"
  by (simp add: check_tag_def)

lemma check_tag_policy [simp]: "check_tag (s\<lparr>policy := x\<rparr>) a = check_tag s a"
  by (simp add: check_tag_def)

lemma check_tag_in_range: "check_tag s a = Inr h \<Longrightarrow> unat (idx a) < length (tags s)"
  by (simp add: check_tag_def split: if_splits)

lemma check_tag_miss:
  assumes "check_tag s a = Inr h" and "h < 0" and "length (tags s ! unat (idx a)) \<le> 2 ^ 31"
  shows "\<forall>e \<in> set (tags s ! unat (idx a)). \<not> op_eq e a" and "h = - 1"
proof -
  let ?row = "tags s ! unat (idx a)"
  have le: "std_find ?row a \<le> length ?row" by (rule std_find_le)
  have "std_find ?row a = length ?row"
  proof (rule ccontr)
    assume ne: "std_find ?row a \<noteq> length ?row"
    with le assms(3) have "std_find ?row a < 2 ^ 31" by simp
    then have "sint (word_of_nat (std_find ?row a) :: 32 word) = int (std_find ?row a)"
      by (rule sint_way)
    with assms(1,2) ne show False
      by (simp add: check_tag_def Let_def split: if_splits)
  qed
  then show "\<forall>e \<in> set ?row. \<not> op_eq e a" by (simp add: std_find_none)
  from \<open>std_find ?row a = length ?row\<close> assms(1) show "h = - 1"
    by (simp add: check_tag_def Let_def split: if_splits)
qed

lemma check_tag_hit:
  assumes "check_tag s a = Inr h" and "0 \<le> h" and "length (tags s ! unat (idx a)) \<le> 2 ^ 31"
  shows "h = int (std_find (tags s ! unat (idx a)) a)"
    and "std_find (tags s ! unat (idx a)) a < length (tags s ! unat (idx a))"
proof -
  let ?row = "tags s ! unat (idx a)"
  have le: "std_find ?row a \<le> length ?row" by (rule std_find_le)
  from assms(1,2) have ne: "std_find ?row a \<noteq> length ?row"
    by (auto simp add: check_tag_def Let_def split: if_splits)
  with le show "std_find ?row a < length ?row" by simp
  with assms(3) have "std_find ?row a < 2 ^ 31" by simp
  then have "sint (word_of_nat (std_find ?row a) :: 32 word) = int (std_find ?row a)"
    by (rule sint_way)
  with assms(1) ne show "h = int (std_find ?row a)"
    by (simp add: check_tag_def Let_def split: if_splits)
qed

lemma check_tag_found:
  assumes "unat (idx a) < length (tags s)" and "w < length (tags s ! unat (idx a))"
    and "op_eq (tags s ! unat (idx a) ! w) a"
    and "\<forall>j < w. \<not> op_eq (tags s ! unat (idx a) ! j) a"
    and "length (tags s ! unat (idx a)) \<le> 2 ^ 31"
  shows "check_tag s a = Inr (int w)"
proof -
  from assms(2-4) have f: "std_find (tags s ! unat (idx a)) a = w" by (rule std_find_first)
  from assms(2,5) have "w < 2 ^ 31" by simp
  then have "sint (word_of_nat w :: 32 word) = int w" by (rule sint_way)
  with f assms(1,2) show ?thesis by (simp add: check_tag_def Let_def)
qed

section \<open>The two branches of \<open>access\<close>\<close>

lemma access_on_hit:
  assumes "cache_sim_addr_t_of raw_addr (ucast (sets s)) (ucast (linesz s)) = Inr addr"
    and "check_tag s addr = Inr hit" and "0 \<le> hit"
  shows "access ops (Cache_sim s mh) raw_addr bytes store =
     (case access_hit ops (s\<lparr>perf_counter := perf_counter s @ [OnAccess store bytes]\<rparr>) addr hit store of
        Inl e \<Rightarrow> Inl e | Inr s1 \<Rightarrow> Inr (Cache_sim s1 mh))"
  using assms by (simp add: access.simps Let_def)

lemma access_on_miss:
  assumes addr: "cache_sim_addr_t_of raw_addr (ucast (sets s)) (ucast (linesz s)) = Inr addr"
    and hit: "check_tag s addr = Inr hit" and neg: "hit < 0"
    and ret: "access ops (Cache_sim s mh) raw_addr bytes store = Inr c'"
  shows "\<exists>victim s1 s3 mh'.
    access_miss ops (s\<lparr>perf_counter := perf_counter s @ [OnAccess store bytes]\<rparr>) addr store = Inr (victim, s1) \<and>
    forwarded ops s1 victim addr mh mh' \<and>
    (let s2 = (if valid victim \<and> dirty victim
               then s1\<lparr>perf_counter := perf_counter s1 @ [OnWriteback]\<rparr> else s1)
     in if store then access_miss_store s2 addr = Inr s3 else s3 = s2) \<and>
    c' = Cache_sim s3 mh'"
proof -
  let ?s0 = "s\<lparr>perf_counter := perf_counter s @ [OnAccess store bytes]\<rparr>"
  from neg have nn: "\<not> 0 \<le> hit" by simp
  from ret addr hit nn obtain victim s1 where
    miss: "access_miss ops ?s0 addr store = Inr (victim, s1)"
    by (simp add: access.simps Let_def split: sum.splits prod.splits)
  note eq = ret[unfolded access.simps Let_def, simplified, unfolded addr sum.case, simplified,
      unfolded hit sum.case, simplified nn miss]
  show ?thesis
  proof (cases mh)
    case None
    with eq miss show ?thesis
      by (auto simp: forwarded_def Let_def split: sum.splits if_splits)
  next
    case (Some m)
    show ?thesis
    proof (cases "valid victim \<and> dirty victim")
      case True
      with eq Some obtain a1 m1 a2 m2 s3 where
        "to_uint64 victim (ucast (sets s1)) (ucast (linesz s1)) = Inr a1"
        "access ops m a1 (linesz s1) True = Inr m1"
        "to_uint64 addr (ucast (sets s1)) (ucast (linesz s1)) = Inr a2"
        "access ops m1 a2 (linesz s1) False = Inr m2"
        "if store then access_miss_store (s1\<lparr>perf_counter := perf_counter s1 @ [OnWriteback]\<rparr>) addr = Inr s3
         else s3 = s1\<lparr>perf_counter := perf_counter s1 @ [OnWriteback]\<rparr>"
        "c' = Cache_sim s3 (Some m2)"
        by (auto split: sum.splits if_splits)
      with True Some miss show ?thesis
        by (auto simp: forwarded_def Let_def)
    next
      case False
      with eq Some obtain a2 m2 s3 where
        "to_uint64 addr (ucast (sets s1)) (ucast (linesz s1)) = Inr a2"
        "access ops m a2 (linesz s1) False = Inr m2"
        "if store then access_miss_store s1 addr = Inr s3 else s3 = s1"
        "c' = Cache_sim s3 (Some m2)"
        by (auto split: sum.splits if_splits)
      with False Some miss show ?thesis
        by (auto simp: forwarded_def Let_def)
    qed
  qed
qed


lemma victimize_Inr:
  assumes "victimize ops s addr = Inr (victim, s1)"
  shows "\<exists>p way p1. policy s = Some p \<and> pol_next ops p (idx addr) = (way, p1) \<and>
           unat (idx addr) < length (tags s) \<and> unat way < length (tags s ! unat (idx addr)) \<and>
           victim = tags s ! unat (idx addr) ! unat way \<and>
           s1 = s\<lparr>tags := (tags s)[unat (idx addr) := (tags s ! unat (idx addr))[unat way := set_valid addr]],
                   policy := Some (pol_insert ops p1 (idx addr) way)\<rparr>"
  using assms
  by (auto simp: victimize_def Let_def split: option.splits prod.splits if_splits)

lemma access_miss_Inr:
  assumes "access_miss ops s addr store = Inr (victim, s1)"
  shows "\<exists>p way p1. policy s = Some p \<and> pol_next ops p (idx addr) = (way, p1) \<and>
           unat (idx addr) < length (tags s) \<and> unat way < length (tags s ! unat (idx addr)) \<and>
           victim = tags s ! unat (idx addr) ! unat way \<and>
           tags s1 = (tags s)[unat (idx addr) := (tags s ! unat (idx addr))[unat way := set_valid addr]] \<and>
           policy s1 = Some (pol_insert ops p1 (idx addr) way) \<and>
           perf_counter s1 = perf_counter s @ [OnMiss store] \<and>
           sets s1 = sets s \<and> ways s1 = ways s \<and> linesz s1 = linesz s \<and>
           log s1 = log s \<and> name s1 = name s"
proof -
  from assms obtain s0 where
    v: "victimize ops s0 addr = Inr (victim, s1)" and
    s0: "tags s0 = tags s" "policy s0 = policy s"
        "perf_counter s0 = perf_counter s @ [OnMiss store]" "sets s0 = sets s" "ways s0 = ways s"
        "linesz s0 = linesz s" "log s0 = log s" "name s0 = name s"
    by (auto simp: access_miss_def Let_def split: sum.splits if_splits)
  from victimize_Inr[OF v] s0 show ?thesis by auto
qed

lemma modify_line_Inr:
  assumes "modify_line f i w s = Inr s1"
  shows "i < length (tags s) \<and> w < length (tags s ! i) \<and>
         s1 = s\<lparr>tags := (tags s)[i := (tags s ! i)[w := f (tags s ! i ! w)]]\<rparr>"
  using assms by (auto simp: modify_line_def split: if_splits)

lemma access_miss_store_perf:
  assumes "access_miss_store s addr = Inr s1"
  shows "perf_counter s1 = perf_counter s"
proof -
  from assms obtain w where "modify_line set_dirty (unat (idx addr)) w s = Inr s1"
    by (auto simp: access_miss_store_def split: sum.splits)
  from modify_line_Inr[OF this] show ?thesis by auto
qed

text \<open>
  A miss that returns: the events, the calls that the next level has received, and, in a
  set of at most \<open>2 ^ 31\<close> ways, the tag array at the end.
\<close>

lemma access_miss_sequence:
  assumes addr: "cache_sim_addr_t_of raw_addr (ucast (sets s)) (ucast (linesz s)) = Inr addr"
    and hit: "check_tag s addr = Inr hit" and neg: "hit < 0"
    and ret: "access ops (Cache_sim s mh) raw_addr bytes store = Inr c'"
  shows "\<exists>p way p1 victim.
     policy s = Some p \<and> pol_next ops p (idx addr) = (way, p1) \<and>
     victim = tags s ! unat (idx addr) ! unat way \<and>
     perf_counter (self c') =
       perf_counter s @ [OnAccess store bytes, OnMiss store] @
       (if valid victim \<and> dirty victim then [OnWriteback] else []) \<and>
     (case mh of
        None \<Rightarrow> miss_handler c' = None
      | Some m \<Rightarrow>
          (\<exists>m1 m2 fill_addr.
             (if valid victim \<and> dirty victim
              then (\<exists>victim_addr. to_uint64 victim (ucast (sets s)) (ucast (linesz s)) = Inr victim_addr \<and>
                      access ops m victim_addr (linesz s) True = Inr m1)
              else m1 = m) \<and>
             to_uint64 addr (ucast (sets s)) (ucast (linesz s)) = Inr fill_addr \<and>
             access ops m1 fill_addr (linesz s) False = Inr m2 \<and> miss_handler c' = Some m2)) \<and>
     (length (tags s ! unat (idx addr)) \<le> 2 ^ 31 \<longrightarrow>
      tags (self c') =
        (tags s)[unat (idx addr) := (tags s ! unat (idx addr))[unat way := addr\<lparr>dirty := store\<rparr>]])"
proof -
  let ?s0 = "s\<lparr>perf_counter := perf_counter s @ [OnAccess store bytes]\<rparr>"
  let ?i = "unat (idx addr)"
  from access_on_miss[OF addr hit neg ret] obtain victim s1 s3 mh' where
    miss: "access_miss ops ?s0 addr store = Inr (victim, s1)" and
    fw: "forwarded ops s1 victim addr mh mh'" and
    st: "let s2 = (if valid victim \<and> dirty victim
               then s1\<lparr>perf_counter := perf_counter s1 @ [OnWriteback]\<rparr> else s1)
     in if store then access_miss_store s2 addr = Inr s3 else s3 = s2" and
    c': "c' = Cache_sim s3 mh'"
    by blast
  from access_miss_Inr[OF miss] obtain p way p1 where
    p: "policy s = Some p" "pol_next ops p (idx addr) = (way, p1)" and
    rng: "?i < length (tags s)" "unat way < length (tags s ! ?i)" and
    victim: "victim = tags s ! ?i ! unat way" and
    s1: "tags s1 = (tags s)[?i := (tags s ! ?i)[unat way := set_valid addr]]"
        "perf_counter s1 = perf_counter s @ [OnAccess store bytes, OnMiss store]"
        "sets s1 = sets s" "linesz s1 = linesz s"
    by auto
  define s2 where "s2 = (if valid victim \<and> dirty victim
             then s1\<lparr>perf_counter := perf_counter s1 @ [OnWriteback]\<rparr> else s1)"
  have s2: "tags s2 = tags s1"
    "perf_counter s2 = perf_counter s1 @ (if valid victim \<and> dirty victim then [OnWriteback] else [])"
    by (simp_all add: s2_def)
  from st have st2: "if store then access_miss_store s2 addr = Inr s3 else s3 = s2"
    by (simp add: Let_def s2_def)
  have addr_flags: "valid addr" "\<not> dirty addr"
    using addr by (auto simp: cache_sim_addr_t_of_def Let_def split: sum.splits)
  have sv: "set_valid addr = addr" using addr_flags by (simp add: set_valid_def)
  have nd: "addr\<lparr>dirty := False\<rparr> = addr" using addr_flags by (cases addr) simp
  have "perf_counter s3 = perf_counter s2"
    using st2 by (cases store) (simp_all add: access_miss_store_perf)
  with s1 s2 have perf3: "perf_counter s3 = perf_counter s @ [OnAccess store bytes, OnMiss store] @
       (if valid victim \<and> dirty victim then [OnWriteback] else [])"
    by simp
  have tags3: "length (tags s ! ?i) \<le> 2 ^ 31 \<longrightarrow>
       tags s3 = (tags s)[?i := (tags s ! ?i)[unat way := addr\<lparr>dirty := store\<rparr>]]"
  proof
    assume small: "length (tags s ! ?i) \<le> 2 ^ 31"
    have found: "check_tag s2 addr = Inr (int (unat way))"
    proof (rule check_tag_found)
      show "unat (idx addr) < length (tags s2)" using rng s1 s2 by simp
      show "unat way < length (tags s2 ! unat (idx addr))" using rng s1 s2 by simp
      show "op_eq (tags s2 ! unat (idx addr) ! unat way) addr"
        using rng s1 s2 addr_flags by (simp add: op_eq_def set_valid_def)
      show "\<forall>j<unat way. \<not> op_eq (tags s2 ! unat (idx addr) ! j) addr"
      proof (intro allI impI)
        fix j assume j: "j < unat way"
        with rng have "tags s ! ?i ! j \<in> set (tags s ! ?i)" by simp
        with check_tag_miss(1)[OF hit neg small] have "\<not> op_eq (tags s ! ?i ! j) addr" by blast
        with j rng s1 s2 show "\<not> op_eq (tags s2 ! unat (idx addr) ! j) addr" by simp
      qed
      show "length (tags s2 ! unat (idx addr)) \<le> 2 ^ 31" using rng s1 s2 small by simp
    qed
    show "tags s3 = (tags s)[?i := (tags s ! ?i)[unat way := addr\<lparr>dirty := store\<rparr>]]"
    proof (cases store)
      case True
      with st2 have "access_miss_store s2 addr = Inr s3" by simp
      with found have "modify_line set_dirty ?i (unat way) s2 = Inr s3"
        by (simp add: access_miss_store_def)
      from modify_line_Inr[OF this] True rng s1 s2 sv show ?thesis
        by (simp add: set_dirty_def)
    next
      case False
      with st2 have "s3 = s2" by simp
      with False s1 s2 sv nd show ?thesis by simp
    qed
  qed
  have fw': "case mh of
        None \<Rightarrow> mh' = None
      | Some m \<Rightarrow>
          (\<exists>m1 m2 fill_addr.
             (if valid victim \<and> dirty victim
              then (\<exists>victim_addr. to_uint64 victim (ucast (sets s)) (ucast (linesz s)) = Inr victim_addr \<and>
                      access ops m victim_addr (linesz s) True = Inr m1)
              else m1 = m) \<and>
             to_uint64 addr (ucast (sets s)) (ucast (linesz s)) = Inr fill_addr \<and>
             access ops m1 fill_addr (linesz s) False = Inr m2 \<and> mh' = Some m2)"
    using fw by (simp only: forwarded_def s1(3,4))
  have sel: "miss_handler c' = mh'" "self c' = s3" using c' by simp_all
  show ?thesis
    unfolding sel
    apply (rule exI[where x = p])
    apply (rule exI[where x = way])
    apply (rule exI[where x = p1])
    apply (rule exI[where x = victim])
    using p victim perf3 tags3 fw' by (intro conjI) assumption+
qed

section \<open>A hit after a miss on a cold cache\<close>

lemma access_Inr_lookup:
  assumes "access ops (Cache_sim s mh) raw_addr bytes store = Inr c'"
  shows "\<exists>addr hit. cache_sim_addr_t_of raw_addr (ucast (sets s)) (ucast (linesz s)) = Inr addr \<and>
                    check_tag s addr = Inr hit"
  using assms by (simp add: access.simps Let_def split: sum.splits)

lemma decomposed_flags:
  "cache_sim_addr_t_of a se l = Inr addr \<Longrightarrow> valid addr \<and> \<not> dirty addr"
  by (auto simp: cache_sim_addr_t_of_def Let_def split: sum.splits)

lemma check_tag_cold:
  assumes "cold s" and "check_tag s a = Inr h"
  shows "h = - 1"
proof -
  from assms(2) have r: "unat (idx a) < length (tags s)" by (rule check_tag_in_range)
  then have "tags s ! unat (idx a) \<in> set (tags s)" by simp
  with assms(1) have "\<forall>e \<in> set (tags s ! unat (idx a)). \<not> op_eq e a"
    by (auto simp: cold_def op_eq_def)
  then have "std_find (tags s ! unat (idx a)) a = length (tags s ! unat (idx a))"
    by (simp add: std_find_none)
  with assms(2) r show ?thesis by (simp add: check_tag_def Let_def)
qed

lemma cold_miss_then_hit:
  assumes cold: "cold s"
    and small: "\<forall>row \<in> set (tags s). length row \<le> 2 ^ 31"
    and first: "access ops (Cache_sim s mh) a n False = Inr c1"
    and same: "cache_sim_addr_t_of a' (ucast (sets s)) (ucast (linesz s)) =
               cache_sim_addr_t_of a (ucast (sets s)) (ucast (linesz s))"
  shows "\<exists>addr way p.
     cache_sim_addr_t_of a (ucast (sets s)) (ucast (linesz s)) = Inr addr \<and>
     policy (self c1) = Some p \<and>
     unat (idx addr) < length (tags (self c1)) \<and>
     way < length (tags (self c1) ! unat (idx addr)) \<and>
     tags (self c1) ! unat (idx addr) ! way = addr \<and>
     access ops c1 a' n' store =
       Inr (Cache_sim
             ((self c1)\<lparr>perf_counter := perf_counter (self c1) @ [OnAccess store n'],
                        tags := (if store
                                 then (tags (self c1))[unat (idx addr) :=
                                        (tags (self c1) ! unat (idx addr))[way := set_dirty addr]]
                                 else tags (self c1)),
                        policy := Some (pol_update ops p addr (int way))\<rparr>)
             (miss_handler c1))"
proof -
  from access_Inr_lookup[OF first] obtain addr hit where
    addr: "cache_sim_addr_t_of a (ucast (sets s)) (ucast (linesz s)) = Inr addr" and
    hit: "check_tag s addr = Inr hit" by blast
  let ?i = "unat (idx addr)"
  from check_tag_cold[OF cold hit] have neg: "hit < 0" by simp
  from access_on_miss[OF addr hit neg first] obtain victim s1 mh' where
    miss: "access_miss ops (s\<lparr>perf_counter := perf_counter s @ [OnAccess False n]\<rparr>) addr False = Inr (victim, s1)"
    and c1: "c1 = Cache_sim (if valid victim \<and> dirty victim
               then s1\<lparr>perf_counter := perf_counter s1 @ [OnWriteback]\<rparr> else s1) mh'"
    by (auto simp: Let_def)
  define s3 where "s3 = (if valid victim \<and> dirty victim
               then s1\<lparr>perf_counter := perf_counter s1 @ [OnWriteback]\<rparr> else s1)"
  from access_miss_Inr[OF miss] obtain p way p1 where
    rng: "?i < length (tags s)" "unat way < length (tags s ! ?i)" and
    s1: "tags s1 = (tags s)[?i := (tags s ! ?i)[unat way := set_valid addr]]"
        "policy s1 = Some (pol_insert ops p1 (idx addr) way)"
        "sets s1 = sets s" "linesz s1 = linesz s"
    by auto
  have s3: "tags s3 = tags s1" "policy s3 = policy s1" "sets s3 = sets s" "linesz s3 = linesz s"
    using s1 by (simp_all add: s3_def)
  have c1': "c1 = Cache_sim s3 mh'" using c1 by (simp add: s3_def)
  from decomposed_flags[OF addr] have fl: "valid addr" "\<not> dirty addr" by simp_all
  then have sv: "set_valid addr = addr" by (simp add: set_valid_def)
  let ?w = "unat way"
  from rng have row_in: "tags s ! ?i \<in> set (tags s)" by simp
  have rng3: "?i < length (tags s3)" "?w < length (tags s3 ! ?i)"
    using rng s1 s3 by simp_all
  have at: "tags s3 ! ?i ! ?w = addr" using rng s1 s3 sv by simp
  have found: "check_tag s3 addr = Inr (int ?w)"
  proof (rule check_tag_found)
    show "?i < length (tags s3)" by (rule rng3)
    show "?w < length (tags s3 ! ?i)" by (rule rng3)
    show "op_eq (tags s3 ! ?i ! ?w) addr" using at fl by (simp add: op_eq_def)
    show "\<forall>j<?w. \<not> op_eq (tags s3 ! ?i ! j) addr"
    proof (intro allI impI)
      fix j assume j: "j < ?w"
      with rng have "tags s ! ?i ! j \<in> set (tags s ! ?i)" by simp
      with cold row_in have "\<not> valid (tags s ! ?i ! j)" by (auto simp: cold_def)
      with j rng s1 s3 show "\<not> op_eq (tags s3 ! ?i ! j) addr" by (simp add: op_eq_def)
    qed
    show "length (tags s3 ! ?i) \<le> 2 ^ 31" using small row_in rng s1 s3 by simp
  qed
  have addr': "cache_sim_addr_t_of a' (ucast (sets s3)) (ucast (linesz s3)) = Inr addr"
    using same addr s3 by simp
  have second: "access ops (Cache_sim s3 mh') a' n' store =
     (case access_hit ops (s3\<lparr>perf_counter := perf_counter s3 @ [OnAccess store n']\<rparr>) addr (int ?w) store of
        Inl e \<Rightarrow> Inl e | Inr s4 \<Rightarrow> Inr (Cache_sim s4 mh'))"
    by (rule access_on_hit[OF addr' found]) simp
  have "access_hit ops (s3\<lparr>perf_counter := perf_counter s3 @ [OnAccess store n']\<rparr>) addr (int ?w) store =
     Inr (s3\<lparr>perf_counter := perf_counter s3 @ [OnAccess store n'],
              tags := (if store then (tags s3)[?i := (tags s3 ! ?i)[?w := set_dirty addr]] else tags s3),
              policy := Some (pol_update ops (pol_insert ops p1 (idx addr) way) addr (int ?w))\<rparr>)"
    using rng3 at s3 s1 by (simp add: access_hit_def modify_line_def)
  with second have "access ops (Cache_sim s3 mh') a' n' store =
     Inr (Cache_sim (s3\<lparr>perf_counter := perf_counter s3 @ [OnAccess store n'],
              tags := (if store then (tags s3)[?i := (tags s3 ! ?i)[?w := set_dirty addr]] else tags s3),
              policy := Some (pol_update ops (pol_insert ops p1 (idx addr) way) addr (int ?w))\<rparr>) mh')"
    by simp
  with addr rng3 at s3 s1 c1' show ?thesis
    apply (intro exI[where x = addr])
    apply (rule exI[where x = ?w])
    apply (rule exI[where x = "pol_insert ops p1 (idx addr) way"])
    by simp
qed

section \<open>One level at a time\<close>

lemma access_local:
  assumes ret: "access ops (Cache_sim s mh) raw_addr bytes store = Inr c'"
  shows "local_access ops s raw_addr bytes store (self c') \<and>
         (case mh of None \<Rightarrow> miss_handler c' = None
          | Some m \<Rightarrow> (\<exists>m'. miss_handler c' = Some m' \<and> accessed ops m m'))"
proof -
  from access_Inr_lookup[OF ret] obtain addr hit where
    addr: "cache_sim_addr_t_of raw_addr (ucast (sets s)) (ucast (linesz s)) = Inr addr" and
    hit: "check_tag s addr = Inr hit" by blast
  show ?thesis
  proof (cases "0 \<le> hit")
    case True
    from ret access_on_hit[OF addr hit True, of ops mh bytes store]
    obtain s1 where
      "access_hit ops (s\<lparr>perf_counter := perf_counter s @ [OnAccess store bytes]\<rparr>) addr hit store = Inr s1"
      "c' = Cache_sim s1 mh"
      by (auto split: sum.splits)
    with addr hit True show ?thesis
      by (auto simp: local_access_def accessed_def split: option.splits)
  next
    case False
    then have neg: "hit < 0" by simp
    from access_on_miss[OF addr hit neg ret] obtain victim s1 s3 mh' where
      miss: "access_miss ops (s\<lparr>perf_counter := perf_counter s @ [OnAccess store bytes]\<rparr>) addr store = Inr (victim, s1)" and
      fw: "forwarded ops s1 victim addr mh mh'" and
      st: "let s2 = (if valid victim \<and> dirty victim
               then s1\<lparr>perf_counter := perf_counter s1 @ [OnWriteback]\<rparr> else s1)
          in if store then access_miss_store s2 addr = Inr s3 else s3 = s2" and
      c': "c' = Cache_sim s3 mh'"
      by blast
    have loc: "local_access ops s raw_addr bytes store (self c')"
      unfolding local_access_def using addr hit False miss st c'
      by (intro exI[where x = addr] exI[where x = hit]) auto
    have "case mh of None \<Rightarrow> mh' = None | Some m \<Rightarrow> (\<exists>m'. mh' = Some m' \<and> accessed ops m m')"
    proof (cases mh)
      case None
      with fw show ?thesis by (simp add: forwarded_def)
    next
      case (Some m)
      with fw obtain m1 m2 fill_addr where
        a0: "if valid victim \<and> dirty victim
              then (\<exists>victim_addr. to_uint64 victim (ucast (sets s1)) (ucast (linesz s1)) = Inr victim_addr \<and>
                      access ops m victim_addr (linesz s1) True = Inr m1)
              else m1 = m" and
        b: "access ops m1 fill_addr (linesz s1) False = Inr m2" and
        c: "mh' = Some m2"
        unfolding forwarded_def by auto
      from a0 have a: "m1 = m \<or> (\<exists>x y z. access ops m x y z = Inr m1)"
        by (cases "valid victim \<and> dirty victim") auto
      from a have "accessed ops m m1" unfolding accessed_def by auto
      moreover from b have "accessed ops m1 m2" unfolding accessed_def by auto
      ultimately have "accessed ops m m2" unfolding accessed_def by (rule rtranclp_trans)
      with Some c show ?thesis by simp
    qed
    with loc c' show ?thesis by (cases mh) simp_all
  qed
qed


lemma accessed_all_levels:
  assumes pres: "\<And>s raw_addr bytes store s'. P s \<Longrightarrow> local_access ops s raw_addr bytes store s' \<Longrightarrow> P s'"
  shows "accessed ops c c' \<Longrightarrow> all_levels P c \<Longrightarrow> all_levels P c'"
proof (induction c arbitrary: c')
  case (Cache_sim s mh)
  define J where "J = (\<lambda>x. P (self x) \<and>
      (case mh of None \<Rightarrow> miss_handler x = None
       | Some m \<Rightarrow> (\<exists>mx. miss_handler x = Some mx \<and> accessed ops m mx)))"
  from Cache_sim.prems(1) have "J (Cache_sim s mh) \<longrightarrow> J c'"
    unfolding accessed_def
  proof (induction rule: rtranclp_induct)
    case base
    show ?case by simp
  next
    case (step x y)
    show ?case
    proof
      assume "J (Cache_sim s mh)"
      with step.IH have Jx: "J x" by simp
      obtain sx mhx where x: "x = Cache_sim sx mhx" by (cases x)
      from step.hyps(2) obtain ra b st where "access ops (Cache_sim sx mhx) ra b st = Inr y"
        using x by auto
      from access_local[OF this] have
        loc: "local_access ops sx ra b st (self y)" and
        ch: "case mhx of None \<Rightarrow> miss_handler y = None
             | Some m \<Rightarrow> (\<exists>m'. miss_handler y = Some m' \<and> accessed ops m m')"
        by simp_all
      from Jx x have "P sx" by (simp add: J_def)
      from pres[OF this loc] have Py: "P (self y)" .
      have "case mh of None \<Rightarrow> miss_handler y = None
            | Some m \<Rightarrow> (\<exists>mx. miss_handler y = Some mx \<and> accessed ops m mx)"
      proof (cases mh)
        case None
        with Jx x ch show ?thesis by (simp add: J_def)
      next
        case (Some m)
        with Jx x obtain mx where mx: "mhx = Some mx" "accessed ops m mx" by (auto simp: J_def)
        with ch obtain m' where m': "miss_handler y = Some m'" "accessed ops mx m'" by auto
        from mx(2) m'(2) have "accessed ops m m'" unfolding accessed_def by (rule rtranclp_trans)
        with Some m' show ?thesis by simp
      qed
      with Py show "J y" by (simp add: J_def)
    qed
  qed
  moreover have "J (Cache_sim s mh)"
    using Cache_sim.prems(2) by (cases mh) (simp_all add: J_def accessed_def)
  ultimately have Jc: "J c'" by simp
  obtain s' mh' where c': "c' = Cache_sim s' mh'" by (cases c')
  show ?case
  proof (cases mh)
    case None
    with Jc c' show ?thesis by (simp add: J_def)
  next
    case (Some m)
    with Jc c' obtain m' where m': "mh' = Some m'" "accessed ops m m'" by (auto simp: J_def)
    from Cache_sim.prems(2) Some have "all_levels P m" by simp
    with Cache_sim.IH[of m m'] Some m'(2) have "all_levels P m'" by simp
    with Jc c' m' show ?thesis by (simp add: J_def)
  qed
qed

lemma access_all_levels:
  assumes "\<And>s raw_addr bytes store s'. P s \<Longrightarrow> local_access ops s raw_addr bytes store s' \<Longrightarrow> P s'"
    and "access ops c raw_addr bytes store = Inr c'" and "all_levels P c"
  shows "all_levels P c'"
proof -
  from assms(2) have "accessed ops c c'" unfolding accessed_def by auto
  from accessed_all_levels[of P ops, OF assms(1) this assms(3)] show ?thesis .
qed

section \<open>The invariant under \<open>access\<close>\<close>

lemma distinct_tags_flags:
  assumes "distinct_tags row" and "tag x = tag (row ! w)" and "valid x \<longrightarrow> valid (row ! w)"
  shows "distinct_tags (row[w := x])"
  unfolding distinct_tags_def
proof (intro allI impI)
  fix i j
  assume i: "i < length (row[w := x])" and j: "j < length (row[w := x])"
    and h: "valid (row[w := x] ! i) \<and> valid (row[w := x] ! j) \<and> tag (row[w := x] ! i) = tag (row[w := x] ! j)"
  have k: "tag (row[w := x] ! k) = tag (row ! k) \<and> (valid (row[w := x] ! k) \<longrightarrow> valid (row ! k))"
    if "k < length row" for k
  proof (cases "w < length row")
    case True
    with assms(2,3) show ?thesis by (auto simp: nth_list_update)
  next
    case False
    then have "row[w := x] = row" by (intro list_update_beyond) simp
    then show ?thesis by simp
  qed
  from i j h k[of i] k[of j] have "valid (row ! i) \<and> valid (row ! j) \<and> tag (row ! i) = tag (row ! j)"
    by simp
  with assms(1) i j show "i = j" by (simp add: distinct_tags_def)
qed

lemma distinct_tags_insert:
  assumes "distinct_tags row" and "\<forall>e \<in> set row. \<not> (valid e \<and> tag e = tag x)"
  shows "distinct_tags (row[w := x])"
  unfolding distinct_tags_def
proof (intro allI impI)
  fix i j
  assume i: "i < length (row[w := x])" and j: "j < length (row[w := x])"
    and h: "valid (row[w := x] ! i) \<and> valid (row[w := x] ! j) \<and> tag (row[w := x] ! i) = tag (row[w := x] ! j)"
  show "i = j"
  proof (cases "i = w")
    case True
    show ?thesis
    proof (rule ccontr)
      assume "i \<noteq> j"
      with True j h have "valid (row ! j) \<and> tag (row ! j) = tag x" "row ! j \<in> set row"
        using i by (auto simp: nth_list_update)
      with assms(2) show False by blast
    qed
  next
    case False
    show ?thesis
    proof (cases "j = w")
      case True
      with False i h have "valid (row ! i) \<and> tag (row ! i) = tag x" "row ! i \<in> set row"
        using j by (auto simp: nth_list_update)
      with assms(2) show ?thesis by blast
    next
      case jw: False
      with False i j h have "valid (row ! i) \<and> valid (row ! j) \<and> tag (row ! i) = tag (row ! j)"
        by (simp add: nth_list_update)
      with assms(1) i j show ?thesis by (simp add: distinct_tags_def)
    qed
  qed
qed

lemma no_dup_tags_update:
  assumes "no_dup_tags s" and "distinct_tags r" and "tags s' = (tags s)[i := r]"
  shows "no_dup_tags s'"
proof -
  have "set ((tags s)[i := r]) \<subseteq> insert r (set (tags s))" by (rule set_update_subset_insert)
  with assms show ?thesis by (auto simp: no_dup_tags_def)
qed

lemma rows_update:
  assumes "\<forall>row \<in> set ts. length row = n" and "length r = n"
  shows "\<forall>row \<in> set (ts[i := r]). length row = n"
proof -
  have "set (ts[i := r]) \<subseteq> insert r (set ts)" by (rule set_update_subset_insert)
  with assms show ?thesis by auto
qed

lemma flags_only_setters: "flags_only set_dirty" "flags_only set_clean" "flags_only set_invalid"
  by (simp_all add: flags_only_def set_dirty_def set_clean_def set_invalid_def)

lemma modify_line_level_inv:
  assumes "level_inv s" and "flags_only f" and "modify_line f i w s = Inr s1"
  shows "level_inv s1"
proof -
  from modify_line_Inr[OF assms(3)] have
    i: "i < length (tags s)" and w: "w < length (tags s ! i)" and
    s1: "s1 = s\<lparr>tags := (tags s)[i := (tags s ! i)[w := f (tags s ! i ! w)]]\<rparr>" by simp_all
  let ?r = "(tags s ! i)[w := f (tags s ! i ! w)]"
  from i have in_set: "tags s ! i \<in> set (tags s)" by simp
  from assms(1) in_set have "length ?r = unat (ways s)" by (simp add: level_inv_def)
  with assms(1) have rows: "\<forall>row \<in> set ((tags s)[i := ?r]). length row = unat (ways s)"
    by (intro rows_update) (simp_all add: level_inv_def)
  have "unat (ways s) \<le> 2 ^ 31 \<longrightarrow> no_dup_tags s1"
  proof
    assume "unat (ways s) \<le> 2 ^ 31"
    with assms(1) have nd: "no_dup_tags s" by (simp add: level_inv_def)
    with in_set have "distinct_tags (tags s ! i)" by (simp add: no_dup_tags_def)
    then have "distinct_tags ?r"
      using assms(2) by (intro distinct_tags_flags) (simp_all add: flags_only_def)
    with nd show "no_dup_tags s1" by (rule no_dup_tags_update) (simp add: s1)
  qed
  with rows s1 show ?thesis by (simp add: level_inv_def)
qed

lemma level_inv_other_fields [simp]:
  "level_inv (s\<lparr>perf_counter := x\<rparr>) = level_inv s"
  "level_inv (s\<lparr>policy := y\<rparr>) = level_inv s"
  "level_inv (s\<lparr>cerr := z\<rparr>) = level_inv s"
  "level_inv (s\<lparr>log := l\<rparr>) = level_inv s"
  by (simp_all add: level_inv_def no_dup_tags_def)

lemma access_hit_level_inv:
  assumes "level_inv s" and "access_hit ops s addr hit store = Inr s1"
  shows "level_inv s1"
proof -
  from assms(2) obtain s0 p where
    a: "if store then modify_line set_dirty (unat (idx addr)) (size_t_of_int hit) s = Inr s0 else s0 = s"
    and b: "s1 = s0\<lparr>policy := Some (pol_update ops p addr hit)\<rparr>"
    by (auto simp: access_hit_def split: sum.splits option.splits if_splits)
  from a assms(1) have "level_inv s0"
    by (cases store) (auto intro: modify_line_level_inv flags_only_setters)
  with b show ?thesis by simp
qed

lemma access_miss_level_inv:
  assumes inv: "level_inv s" and valid: "valid addr"
    and hit: "check_tag s addr = Inr hit" and neg: "hit < 0"
    and miss: "access_miss ops s addr store = Inr (victim, s1)"
  shows "level_inv s1"
proof -
  let ?i = "unat (idx addr)"
  from access_miss_Inr[OF miss] obtain way :: "64 word" where
    rng: "?i < length (tags s)" "unat way < length (tags s ! ?i)" and
    s1: "tags s1 = (tags s)[?i := (tags s ! ?i)[unat way := set_valid addr]]" "ways s1 = ways s"
    by blast
  let ?r = "(tags s ! ?i)[unat way := set_valid addr]"
  from rng have in_set: "tags s ! ?i \<in> set (tags s)" by simp
  from inv in_set have len: "length (tags s ! ?i) = unat (ways s)" by (simp add: level_inv_def)
  then have "length ?r = unat (ways s)" by simp
  with inv have rows: "\<forall>row \<in> set ((tags s)[?i := ?r]). length row = unat (ways s)"
    by (intro rows_update) (simp_all add: level_inv_def)
  have "unat (ways s) \<le> 2 ^ 31 \<longrightarrow> no_dup_tags s1"
  proof
    assume small: "unat (ways s) \<le> 2 ^ 31"
    with inv have nd: "no_dup_tags s" by (simp add: level_inv_def)
    with in_set have d: "distinct_tags (tags s ! ?i)" by (simp add: no_dup_tags_def)
    from small len have "length (tags s ! ?i) \<le> 2 ^ 31" by simp
    from check_tag_miss(1)[OF hit neg this] valid
    have "\<forall>e \<in> set (tags s ! ?i). \<not> (valid e \<and> tag e = tag (set_valid addr))"
      by (auto simp: op_eq_def set_valid_def)
    with d have "distinct_tags ?r" by (rule distinct_tags_insert)
    with nd show "no_dup_tags s1" by (rule no_dup_tags_update) (simp add: s1)
  qed
  with rows s1 show ?thesis by (simp add: level_inv_def)
qed

lemma access_miss_store_level_inv:
  assumes "level_inv s" and "access_miss_store s addr = Inr s1"
  shows "level_inv s1"
  using assms
  by (auto simp: access_miss_store_def split: sum.splits
      intro: modify_line_level_inv flags_only_setters)

lemma local_access_level_inv:
  assumes inv: "level_inv s" and loc: "local_access ops s raw_addr bytes store s'"
  shows "level_inv s'"
proof -
  let ?s0 = "s\<lparr>perf_counter := perf_counter s @ [OnAccess store bytes]\<rparr>"
  from loc obtain addr hit where
    addr: "cache_sim_addr_t_of raw_addr (ucast (sets s)) (ucast (linesz s)) = Inr addr" and
    hit: "check_tag s addr = Inr hit" and
    br: "if 0 \<le> hit
         then access_hit ops ?s0 addr hit store = Inr s'
         else (\<exists>victim s1.
                 access_miss ops ?s0 addr store = Inr (victim, s1) \<and>
                 (let s2 = (if valid victim \<and> dirty victim
                            then s1\<lparr>perf_counter := perf_counter s1 @ [OnWriteback]\<rparr> else s1)
                  in if store then access_miss_store s2 addr = Inr s' else s' = s2))"
    unfolding local_access_def by blast
  from inv have inv0: "level_inv ?s0" by simp
  show ?thesis
  proof (cases "0 \<le> hit")
    case True
    with br have "access_hit ops ?s0 addr hit store = Inr s'" by simp
    with inv0 show ?thesis by (rule access_hit_level_inv)
  next
    case False
    with br obtain victim s1 where
      miss: "access_miss ops ?s0 addr store = Inr (victim, s1)" and
      st: "let s2 = (if valid victim \<and> dirty victim
                            then s1\<lparr>perf_counter := perf_counter s1 @ [OnWriteback]\<rparr> else s1)
                  in if store then access_miss_store s2 addr = Inr s' else s' = s2"
      by auto
    from decomposed_flags[OF addr] have v: "valid addr" by simp
    from hit have hit0: "check_tag ?s0 addr = Inr hit" by simp
    from False have neg: "hit < 0" by simp
    from access_miss_level_inv[OF inv0 v hit0 neg miss] have i1: "level_inv s1" .
    define s2 where "s2 = (if valid victim \<and> dirty victim
                            then s1\<lparr>perf_counter := perf_counter s1 @ [OnWriteback]\<rparr> else s1)"
    from i1 have i2: "level_inv s2" by (simp add: s2_def)
    from st have "if store then access_miss_store s2 addr = Inr s' else s' = s2"
      by (simp add: Let_def s2_def)
    with i2 show ?thesis
      by (cases store) (auto intro: access_miss_store_level_inv)
  qed
qed

lemma access_level_inv:
  "access ops c raw_addr bytes store = Inr c' \<Longrightarrow> all_levels level_inv c \<Longrightarrow> all_levels level_inv c'"
  by (rule access_all_levels[of level_inv ops]) (rule local_access_level_inv)

section \<open>The invariant under \<open>clean_invalidate\<close>\<close>

lemma fewer_valid_refl: "fewer_valid t t"
  by (simp add: fewer_valid_def)

lemma fewer_valid_trans: "fewer_valid t t1 \<Longrightarrow> fewer_valid t1 t2 \<Longrightarrow> fewer_valid t t2"
  by (auto simp: fewer_valid_def)

lemma fewer_valid_modify:
  assumes "flags_only f" and "i < length t" and "w < length (t ! i)"
  shows "fewer_valid t (t[i := (t ! i)[w := f (t ! i ! w)]])"
  using assms by (auto simp: fewer_valid_def flags_only_def nth_list_update)

lemma modify_line_fewer_valid:
  assumes "flags_only f" and "modify_line f i w s = Inr s1"
  shows "fewer_valid (tags s) (tags s1) \<and> sets s1 = sets s \<and> ways s1 = ways s \<and> linesz s1 = linesz s \<and>
         perf_counter s1 = perf_counter s"
  using modify_line_Inr[OF assms(2)] fewer_valid_modify[OF assms(1)] by auto

lemma clean_invalidate_line_lookup:
  "clean_invalidate_line s cur clean inval = Inr s1 \<Longrightarrow> \<exists>hit. check_tag s cur = Inr hit"
  by (auto simp: clean_invalidate_line_def split: sum.splits)

lemma clean_invalidate_line_nohit:
  "clean_invalidate_line s cur clean inval = Inr s1 \<Longrightarrow> check_tag s cur = Inr hit \<Longrightarrow>
   \<not> 0 \<le> hit \<Longrightarrow> s1 = s"
  by (simp add: clean_invalidate_line_def)

lemma clean_invalidate_line_hit:
  assumes "clean_invalidate_line s cur clean inval = Inr s1" and "check_tag s cur = Inr hit"
    and "0 \<le> hit"
  shows "\<exists>sA. (sA = s \<or>
               modify_line set_clean (unat (idx cur)) (size_t_of_int hit)
                 (s\<lparr>perf_counter := perf_counter s @ [OnWriteback, OnClean]\<rparr>) = Inr sA) \<and>
              (if inval then modify_line set_invalid (unat (idx cur)) (size_t_of_int hit) sA = Inr s1
               else s1 = sA)"
  using assms
  by (auto simp: clean_invalidate_line_def Let_def split: sum.splits if_splits)

lemma clean_invalidate_line_fewer_valid:
  assumes line: "clean_invalidate_line s cur clean inval = Inr s1"
  shows "fewer_valid (tags s) (tags s1) \<and> sets s1 = sets s \<and> ways s1 = ways s \<and> linesz s1 = linesz s"
proof -
  from clean_invalidate_line_lookup[OF line] obtain hit where
    hit: "check_tag s cur = Inr hit" by blast
  show ?thesis
  proof (cases "0 \<le> hit")
    case False
    from clean_invalidate_line_nohit[OF line hit False] show ?thesis
      by (simp add: fewer_valid_refl)
  next
    case True
    from clean_invalidate_line_hit[OF line hit True] obtain sA where
      a: "sA = s \<or> modify_line set_clean (unat (idx cur)) (size_t_of_int hit)
                     (s\<lparr>perf_counter := perf_counter s @ [OnWriteback, OnClean]\<rparr>) = Inr sA" and
      b: "s1 = sA \<or> modify_line set_invalid (unat (idx cur)) (size_t_of_int hit) sA = Inr s1"
      by (auto split: if_splits)
    from a have A: "fewer_valid (tags s) (tags sA) \<and> sets sA = sets s \<and> ways sA = ways s \<and> linesz sA = linesz s"
    proof
      assume "sA = s"
      then show ?thesis by (simp add: fewer_valid_refl)
    next
      assume "modify_line set_clean (unat (idx cur)) (size_t_of_int hit)
                     (s\<lparr>perf_counter := perf_counter s @ [OnWriteback, OnClean]\<rparr>) = Inr sA"
      from modify_line_fewer_valid[OF flags_only_setters(2) this] show ?thesis by simp
    qed
    from b have B: "fewer_valid (tags sA) (tags s1) \<and> sets s1 = sets sA \<and> ways s1 = ways sA \<and> linesz s1 = linesz sA"
    proof
      assume "s1 = sA"
      then show ?thesis by (simp add: fewer_valid_refl)
    next
      assume "modify_line set_invalid (unat (idx cur)) (size_t_of_int hit) sA = Inr s1"
      from modify_line_fewer_valid[OF flags_only_setters(3) this] show ?thesis by simp
    qed
    from A B show ?thesis by (auto intro: fewer_valid_trans)
  qed
qed

lemma clean_invalidate_line_level_inv:
  assumes inv: "level_inv s" and line: "clean_invalidate_line s cur clean inval = Inr s1"
  shows "level_inv s1"
proof -
  from clean_invalidate_line_lookup[OF line] obtain hit where
    hit: "check_tag s cur = Inr hit" by blast
  show ?thesis
  proof (cases "0 \<le> hit")
    case False
    from clean_invalidate_line_nohit[OF line hit False] inv show ?thesis by simp
  next
    case True
    from clean_invalidate_line_hit[OF line hit True] obtain sA where
      a: "sA = s \<or> modify_line set_clean (unat (idx cur)) (size_t_of_int hit)
                     (s\<lparr>perf_counter := perf_counter s @ [OnWriteback, OnClean]\<rparr>) = Inr sA" and
      b: "s1 = sA \<or> modify_line set_invalid (unat (idx cur)) (size_t_of_int hit) sA = Inr s1"
      by (auto split: if_splits)
    from a have invA: "level_inv sA"
    proof
      assume "sA = s"
      with inv show ?thesis by simp
    next
      assume m: "modify_line set_clean (unat (idx cur)) (size_t_of_int hit)
                     (s\<lparr>perf_counter := perf_counter s @ [OnWriteback, OnClean]\<rparr>) = Inr sA"
      from inv have "level_inv (s\<lparr>perf_counter := perf_counter s @ [OnWriteback, OnClean]\<rparr>)"
        by simp
      from modify_line_level_inv[OF this flags_only_setters(2) m] show ?thesis .
    qed
    from b show ?thesis
    proof
      assume "s1 = sA"
      with invA show ?thesis by simp
    next
      assume "modify_line set_invalid (unat (idx cur)) (size_t_of_int hit) sA = Inr s1"
      from modify_line_level_inv[OF invA flags_only_setters(3) this] show ?thesis .
    qed
  qed
qed

lemma clean_invalidate_loop_pres:
  assumes pres: "\<And>s cur clean inval s1. Q s \<Longrightarrow> clean_invalidate_line s cur clean inval = Inr s1 \<Longrightarrow> Q s1"
    and run: "clean_invalidate_loop s cur end_addr clean inval = Some r"
  shows "\<forall>s'. r = Inr s' \<longrightarrow> Q s \<longrightarrow> Q s'"
proof (rule clean_invalidate_loop.raw_induct
    [where P = "\<lambda>s cur end_addr clean inval r. \<forall>s'. r = Inr s' \<longrightarrow> Q s \<longrightarrow> Q s'", OF _ run],
    goal_cases)
  case (1 loop s cur end_addr clean inval r)
  show ?case
  proof (cases "op_lt cur end_addr")
    case False
    with 1(2) show ?thesis by auto
  next
    case True
    show ?thesis
    proof (intro allI impI)
      fix s' assume r: "r = Inr s'" and Q: "Q s"
      from 1(2) True r obtain sA where
        line: "clean_invalidate_line s cur clean inval = Inr sA" and
        rest: "loop sA (next_cacheline cur (ucast (sets sA))) end_addr clean inval = Some (Inr s')"
        by (auto split: sum.splits)
      from pres[OF Q line] have "Q sA" .
      with 1(1)[OF rest] show "Q s'" by simp
    qed
  qed
qed

lemma clean_invalidate_level_inv:
  "clean_invalidate c addr bytes clean inval = Some (Inr c') \<Longrightarrow> all_levels level_inv c \<Longrightarrow>
   all_levels level_inv c'"
proof (induction c arbitrary: c')
  case (Cache_sim s mh)
  from Cache_sim.prems(1) obtain cur end_addr s1 where
    loop: "clean_invalidate_loop s cur end_addr clean inval = Some (Inr s1)" and
    rest: "(case mh of
              None \<Rightarrow> Some (Inr (Cache_sim s1 None))
            | Some m \<Rightarrow>
                (case clean_invalidate m addr bytes clean inval of
                   None \<Rightarrow> None
                 | Some (Inl e) \<Rightarrow> Some (Inl e)
                 | Some (Inr m1) \<Rightarrow> Some (Inr (Cache_sim s1 (Some m1))))) = Some (Inr c')"
    by (auto split: sum.splits option.splits)
  from clean_invalidate_loop_pres[of level_inv, OF clean_invalidate_line_level_inv loop]
    Cache_sim.prems(2) have s1: "level_inv s1" by simp
  show ?case
  proof (cases mh)
    case None
    with rest s1 show ?thesis by auto
  next
    case (Some m)
    with rest obtain m1 where
      m1: "clean_invalidate m addr bytes clean inval = Some (Inr m1)" and
      c': "c' = Cache_sim s1 (Some m1)"
      by (auto split: sum.splits option.splits)
    from Cache_sim.IH[of m m1] Some m1 Cache_sim.prems(2) have "all_levels level_inv m1" by simp
    with s1 c' show ?thesis by simp
  qed
qed

section \<open>Engines that a program can build keep the invariant\<close>

lemma distinct_tags_invalid: "\<forall>e \<in> set row. \<not> valid e \<Longrightarrow> distinct_tags row"
  by (auto simp: distinct_tags_def)

lemma init_Inr:
  assumes "init ops s eviction_policy = Inr c"
  shows "\<exists>s'. c = Cache_sim s' None \<and> sets s' = sets s \<and> ways s' = ways s \<and> linesz s' = linesz s \<and>
           tags s' = replicate (unat (sets s)) (replicate (unat (ways s)) cache_sim_addr_t_default) \<and>
           policy s' = create_eviction_policy ops s eviction_policy \<and>
           perf_counter s' = perf_counter s \<and> log s' = log s \<and> name s' = name s \<and> cerr s' = cerr s"
  using assms
  by (auto simp: init_def Let_def create_eviction_policy_def split: if_splits)

lemma init_fresh:
  assumes "init ops s eviction_policy = Inr c"
  shows "all_levels level_inv c" and "cold (self c)" and "miss_handler c = None"
    and "\<forall>row \<in> set (tags (self c)). length row = unat (ways s)"
proof -
  from init_Inr[OF assms] obtain s' where
    c: "c = Cache_sim s' None" and w: "ways s' = ways s" and
    t: "tags s' = replicate (unat (sets s)) (replicate (unat (ways s)) cache_sim_addr_t_default)"
    by blast
  have inv: "\<forall>row \<in> set (tags s'). \<forall>e \<in> set row. \<not> valid e"
    by (auto simp: t cache_sim_addr_t_default_def)
  then show "cold (self c)" by (simp add: c cold_def)
  show "miss_handler c = None" by (simp add: c)
  show "\<forall>row \<in> set (tags (self c)). length row = unat (ways s)" by (auto simp: c t)
  from inv have "no_dup_tags s'" by (simp add: no_dup_tags_def distinct_tags_invalid)
  moreover have "\<forall>row \<in> set (tags s'). length row = unat (ways s')" by (auto simp: t w)
  ultimately show "all_levels level_inv c" by (simp add: c level_inv_def)
qed

lemma reachable_level_inv: "reachable ops c \<Longrightarrow> all_levels level_inv c"
proof (induction rule: reachable.induct)
  case (reach_new sets0 ways0 linesz0 name0 eviction_policy c)
  then show ?case unfolding cache_sim_t_new_def by (rule init_fresh(1))
next
  case (reach_new_lfsr sets0 ways0 linesz0 name0 c)
  then show ?case unfolding cache_sim_t_new_lfsr_def by (rule init_fresh(1))
next
  case (reach_set_miss_handler c m)
  then show ?case by (cases c) simp
next
  case (reach_set_log c l)
  then show ?case by (cases c) simp
next
  case (reach_access c raw_addr bytes store c')
  from access_level_inv[OF reach_access.hyps(2) reach_access.IH] show ?case .
next
  case (reach_clean_invalidate c addr bytes clean inval c')
  from clean_invalidate_level_inv[OF reach_clean_invalidate.hyps(2) reach_clean_invalidate.IH]
  show ?case .
qed

lemma all_levels_mono:
  "all_levels P c \<Longrightarrow> (\<And>s. P s \<Longrightarrow> Q s) \<Longrightarrow> all_levels Q c"
proof (induction c)
  case (Cache_sim s mh)
  then show ?case by (cases mh) auto
qed

lemma all_levels_conj:
  "all_levels P c \<Longrightarrow> all_levels Q c \<Longrightarrow> all_levels (\<lambda>s. P s \<and> Q s) c"
proof (induction c)
  case (Cache_sim s mh)
  then show ?case by (cases mh) auto
qed

lemma miss_refinds_way:
  assumes hit: "check_tag s addr = Inr hit" and neg: "hit < 0"
    and small: "length (tags s ! unat (idx addr)) \<le> 2 ^ 31"
    and v: "valid addr"
    and miss: "access_miss ops (s\<lparr>perf_counter := pc\<rparr>) addr store = Inr (victim, s1)"
  shows "\<exists>p way p1. policy s = Some p \<and> pol_next ops p (idx addr) = (way, p1) \<and>
           tags s1 ! unat (idx addr) ! unat way = set_valid addr \<and>
           check_tag s1 addr = Inr (int (unat way)) \<and>
           check_tag (s1\<lparr>perf_counter := perf_counter s1 @ [OnWriteback]\<rparr>) addr = Inr (int (unat way))"
proof -
  let ?i = "unat (idx addr)"
  from access_miss_Inr[OF miss] obtain p and way :: "64 word" and p1 where
    p: "policy s = Some p" "pol_next ops p (idx addr) = (way, p1)" and
    rng: "?i < length (tags s)" "unat way < length (tags s ! ?i)" and
    s1: "tags s1 = (tags s)[?i := (tags s ! ?i)[unat way := set_valid addr]]"
    by auto
  have at: "tags s1 ! ?i ! unat way = set_valid addr" using rng s1 by simp
  have found: "check_tag s1 addr = Inr (int (unat way))"
  proof (rule check_tag_found)
    show "?i < length (tags s1)" using rng s1 by simp
    show "unat way < length (tags s1 ! ?i)" using rng s1 by simp
    show "op_eq (tags s1 ! ?i ! unat way) addr"
      using at v by (simp add: op_eq_def set_valid_def)
    show "\<forall>j<unat way. \<not> op_eq (tags s1 ! ?i ! j) addr"
    proof (intro allI impI)
      fix j assume j: "j < unat way"
      with rng have "tags s ! ?i ! j \<in> set (tags s ! ?i)" by simp
      with check_tag_miss(1)[OF hit neg small] have "\<not> op_eq (tags s ! ?i ! j) addr" by blast
      with j rng s1 show "\<not> op_eq (tags s1 ! ?i ! j) addr" by simp
    qed
    show "length (tags s1 ! ?i) \<le> 2 ^ 31" using rng s1 small by simp
  qed
  with p at show ?thesis by simp
qed

lemma fresh_miss_then_hit:
  assumes new: "cache_sim_t_new ops sets0 ways0 linesz0 name0 eviction_policy = Inr c0"
    and small: "unat ways0 \<le> 2 ^ 31"
    and first: "access ops (Cache_sim (self c0) mh) a n False = Inr c1"
    and same: "cache_sim_addr_t_of a' (ucast sets0) (ucast linesz0) =
               cache_sim_addr_t_of a (ucast sets0) (ucast linesz0)"
  shows "\<exists>addr way p.
     cache_sim_addr_t_of a (ucast sets0) (ucast linesz0) = Inr addr \<and>
     policy (self c1) = Some p \<and>
     unat (idx addr) < length (tags (self c1)) \<and>
     way < length (tags (self c1) ! unat (idx addr)) \<and>
     tags (self c1) ! unat (idx addr) ! way = addr \<and>
     access ops c1 a' n' store =
       Inr (Cache_sim
             ((self c1)\<lparr>perf_counter := perf_counter (self c1) @ [OnAccess store n'],
                        tags := (if store
                                 then (tags (self c1))[unat (idx addr) :=
                                        (tags (self c1) ! unat (idx addr))[way := set_dirty addr]]
                                 else tags (self c1)),
                        policy := Some (pol_update ops p addr (int way))\<rparr>)
             (miss_handler c1))"
proof -
  from new have i: "init ops \<lparr>sets = sets0, ways = ways0, linesz = linesz0, tags = [], policy = None,
               name = name0, log = False, perf_counter = [], cerr = []\<rparr> eviction_policy = Inr c0"
    by (simp add: cache_sim_t_new_def)
  from init_Inr[OF i] have geo: "sets (self c0) = sets0" "linesz (self c0) = linesz0" by auto
  from init_fresh(2)[OF i] have cold: "cold (self c0)" .
  from init_fresh(4)[OF i] small have rows: "\<forall>row \<in> set (tags (self c0)). length row \<le> 2 ^ 31"
    by simp
  from same geo have same': "cache_sim_addr_t_of a' (ucast (sets (self c0))) (ucast (linesz (self c0))) =
               cache_sim_addr_t_of a (ucast (sets (self c0))) (ucast (linesz (self c0)))" by simp
  from cold_miss_then_hit[OF cold rows first same', of n' store] geo show ?thesis by simp
qed

section \<open>Cleaning and invalidating twice\<close>

lemma check_tag_value:
  "unat (idx a) < length (tags s) \<Longrightarrow>
   \<forall>e \<in> set (tags s ! unat (idx a)). \<not> op_eq e a \<Longrightarrow> check_tag s a = Inr (- 1)"
  by (simp add: check_tag_def Let_def std_find_none[THEN iffD2])

lemma no_match_fewer_valid:
  assumes fv: "fewer_valid t t1" and r: "r < length t"
    and none: "\<forall>e \<in> set (t ! r). \<not> op_eq e a"
  shows "\<forall>e \<in> set (t1 ! r). \<not> op_eq e a"
proof
  fix e assume "e \<in> set (t1 ! r)"
  then obtain k where k: "k < length (t1 ! r)" "e = t1 ! r ! k" by (auto simp: in_set_conv_nth)
  from fv r k have kk: "k < length (t ! r)" "tag (t1 ! r ! k) = tag (t ! r ! k)"
    "valid (t1 ! r ! k) \<longrightarrow> valid (t ! r ! k)"
    by (auto simp: fewer_valid_def)
  from kk(1) none have "\<not> op_eq (t ! r ! k) a" by simp
  with kk k show "\<not> op_eq e a" by (auto simp: op_eq_def)
qed

text \<open>A miss stays a miss while entries are only cleaned or invalidated.\<close>

lemma miss_stable:
  assumes "check_tag s a = Inr (- 1)" and "length (tags s ! unat (idx a)) \<le> 2 ^ 31"
    and "fewer_valid (tags s) (tags s1)"
  shows "check_tag s1 a = Inr (- 1)"
proof -
  from assms(1) have r: "unat (idx a) < length (tags s)" by (rule check_tag_in_range)
  from check_tag_miss(1)[OF assms(1) _ assms(2)]
  have "\<forall>e \<in> set (tags s ! unat (idx a)). \<not> op_eq e a" by simp
  from no_match_fewer_valid[OF assms(3) r this]
  have "\<forall>e \<in> set (tags s1 ! unat (idx a)). \<not> op_eq e a" .
  moreover from assms(3) r have "unat (idx a) < length (tags s1)" by (simp add: fewer_valid_def)
  ultimately show ?thesis by (rule check_tag_value[rotated])
qed

text \<open>After a line has been invalidated, looking it up again misses.\<close>

lemma invalidated_line_misses:
  assumes inv: "level_inv s" and small: "unat (ways s) \<le> 2 ^ 31"
    and line: "clean_invalidate_line s cur clean True = Inr s1"
  shows "check_tag s1 cur = Inr (- 1)"
proof -
  let ?i = "unat (idx cur)"
  let ?row = "tags s ! ?i"
  from clean_invalidate_line_lookup[OF line] obtain hit where
    hit: "check_tag s cur = Inr hit" by blast
  from check_tag_in_range[OF hit] have i: "?i < length (tags s)" .
  then have in_set: "?row \<in> set (tags s)" by simp
  with inv small have len: "length ?row \<le> 2 ^ 31" and d: "distinct_tags ?row"
    by (simp_all add: level_inv_def no_dup_tags_def)
  show ?thesis
  proof (cases "0 \<le> hit")
    case False
    from clean_invalidate_line_nohit[OF line hit False] have "s1 = s" .
    moreover from False have "hit < 0" by simp
    from check_tag_miss(2)[OF hit this len] have "hit = - 1" .
    ultimately show ?thesis using hit by simp
  next
    case True
    let ?w = "std_find ?row cur"
    from check_tag_hit[OF hit True len] have hw: "hit = int ?w" and w: "?w < length ?row" by simp_all
    from w len have "?w < 2 ^ 64" by simp
    with hw have sz: "size_t_of_int hit = ?w" by (simp add: size_t_of_int_nat)
    from std_find_hit[OF w] have m: "op_eq (?row ! ?w) cur" .
    from clean_invalidate_line_hit[OF line hit True] sz obtain sA where
      a: "sA = s \<or> modify_line set_clean ?i ?w
                     (s\<lparr>perf_counter := perf_counter s @ [OnWriteback, OnClean]\<rparr>) = Inr sA" and
      b: "modify_line set_invalid ?i ?w sA = Inr s1"
      by auto
    from a have A: "tags sA = tags s \<or> tags sA = (tags s)[?i := ?row[?w := set_clean (?row ! ?w)]]"
    proof
      assume "sA = s" then show ?thesis by simp
    next
      assume "modify_line set_clean ?i ?w
                     (s\<lparr>perf_counter := perf_counter s @ [OnWriteback, OnClean]\<rparr>) = Inr sA"
      from modify_line_Inr[OF this] show ?thesis by simp
    qed
    from modify_line_Inr[OF b] have
      B: "tags s1 = (tags sA)[?i := (tags sA ! ?i)[?w := set_invalid (tags sA ! ?i ! ?w)]]" by simp
    from A B i w have len1: "length (tags s1) = length (tags s)" "length (tags s1 ! ?i) = length ?row"
      by auto
    have ent: "tags s1 ! ?i ! k = (if k = ?w then set_invalid (tags sA ! ?i ! ?w) else ?row ! k)"
      if "k < length ?row" for k
      using A B i w that by (auto simp: nth_list_update)
    have "\<forall>e \<in> set (tags s1 ! ?i). \<not> op_eq e cur"
    proof
      fix e assume "e \<in> set (tags s1 ! ?i)"
      then obtain k where k: "k < length (tags s1 ! ?i)" "e = tags s1 ! ?i ! k"
        by (auto simp: in_set_conv_nth)
      with len1 have kl: "k < length ?row" by simp
      show "\<not> op_eq e cur"
      proof (cases "k = ?w")
        case True
        with ent[OF kl] k show ?thesis by (simp add: op_eq_def set_invalid_def)
      next
        case False
        have "\<not> op_eq (?row ! k) cur"
        proof
          assume "op_eq (?row ! k) cur"
          with m have "valid (?row ! k) \<and> valid (?row ! ?w) \<and> tag (?row ! k) = tag (?row ! ?w)"
            by (simp add: op_eq_def)
          with d kl w have "k = ?w" by (simp add: distinct_tags_def)
          with False show False by simp
        qed
        with ent[OF kl] False k show ?thesis by simp
      qed
    qed
    moreover from len1 i have "?i < length (tags s1)" by simp
    ultimately show ?thesis by (rule check_tag_value[rotated])
  qed
qed

lemma clean_invalidate_line_miss:
  "check_tag s cur = Inr (- 1) \<Longrightarrow> clean_invalidate_line s cur clean inval = Inr s"
  by (simp add: clean_invalidate_line_def)

lemma level_inv_small_rows:
  assumes "level_inv s" and "unat (ways s) \<le> 2 ^ 31" and "i < length (tags s)"
  shows "length (tags s ! i) \<le> 2 ^ 31"
proof -
  from assms(3) have "tags s ! i \<in> set (tags s)" by simp
  with assms(1,2) show ?thesis by (simp add: level_inv_def)
qed

lemma clean_invalidate_loop_twice:
  assumes run: "clean_invalidate_loop s cur end_addr clean inval = Some r"
  shows "clean \<longrightarrow> inval \<longrightarrow> (\<forall>s1. r = Inr s1 \<longrightarrow> level_inv s \<longrightarrow> unat (ways s) \<le> 2 ^ 31 \<longrightarrow>
           fewer_valid (tags s) (tags s1) \<and> sets s1 = sets s \<and> linesz s1 = linesz s \<and>
           clean_invalidate_loop s1 cur end_addr True True = Some (Inr s1))"
proof (rule clean_invalidate_loop.raw_induct
    [where P = "\<lambda>s cur end_addr clean inval r.
       clean \<longrightarrow> inval \<longrightarrow> (\<forall>s1. r = Inr s1 \<longrightarrow> level_inv s \<longrightarrow> unat (ways s) \<le> 2 ^ 31 \<longrightarrow>
           fewer_valid (tags s) (tags s1) \<and> sets s1 = sets s \<and> linesz s1 = linesz s \<and>
           clean_invalidate_loop s1 cur end_addr True True = Some (Inr s1))", OF _ run],
    goal_cases)
  case (1 loop s cur end_addr clean inval r)
  show ?case
  proof (intro allI impI)
    fix s1
    assume cl: clean and iv: inval and r: "r = Inr s1" and inv: "level_inv s"
      and small: "unat (ways s) \<le> 2 ^ 31"
    show "fewer_valid (tags s) (tags s1) \<and> sets s1 = sets s \<and> linesz s1 = linesz s \<and>
           clean_invalidate_loop s1 cur end_addr True True = Some (Inr s1)"
    proof (cases "op_lt cur end_addr")
      case False
      with 1(2) r have "s1 = s" by simp
      with False show ?thesis
        by (simp add: fewer_valid_refl clean_invalidate_loop.simps)
    next
      case True
      from 1(2) True r cl iv obtain sA where
        line: "clean_invalidate_line s cur True True = Inr sA" and
        rest: "loop sA (next_cacheline cur (ucast (sets sA))) end_addr True True = Some (Inr s1)"
        by (auto split: sum.splits)
      from clean_invalidate_line_level_inv[OF inv line] have invA: "level_inv sA" .
      from clean_invalidate_line_fewer_valid[OF line] have
        fvA: "fewer_valid (tags s) (tags sA)" and eqA: "sets sA = sets s" "ways sA = ways s" "linesz sA = linesz s"
        by simp_all
      from 1(1)[OF rest] invA small eqA have
        fv1: "fewer_valid (tags sA) (tags s1)" and eq1: "sets s1 = sets sA" "linesz s1 = linesz sA" and
        again: "clean_invalidate_loop s1 (next_cacheline cur (ucast (sets sA))) end_addr True True = Some (Inr s1)"
        by simp_all
      from invalidated_line_misses[OF inv small line] have mA: "check_tag sA cur = Inr (- 1)" .
      from check_tag_in_range[OF mA] have "unat (idx cur) < length (tags sA)" .
      from level_inv_small_rows[OF invA _ this] small eqA
      have "length (tags sA ! unat (idx cur)) \<le> 2 ^ 31" by simp
      from miss_stable[OF mA this fv1] have "check_tag s1 cur = Inr (- 1)" .
      then have "clean_invalidate_line s1 cur True True = Inr s1" by (rule clean_invalidate_line_miss)
      with True again eq1 have "clean_invalidate_loop s1 cur end_addr True True = Some (Inr s1)"
        by (subst clean_invalidate_loop.simps) simp
      with fvA fv1 eqA eq1 show ?thesis by (auto intro: fewer_valid_trans)
    qed
  qed
qed

lemma clean_invalidate_again:
  "clean_invalidate c addr bytes True True = Some (Inr c1) \<Longrightarrow>
   all_levels level_inv c \<Longrightarrow> all_levels (\<lambda>s. unat (ways s) \<le> 2 ^ 31) c \<Longrightarrow>
   clean_invalidate c1 addr bytes True True = Some (Inr c1)"
proof (induction c arbitrary: c1)
  case (Cache_sim s mh)
  from Cache_sim.prems(1) obtain cur end_addr s1 where
    cur: "cache_sim_addr_t_of addr (ucast (sets s)) (ucast (linesz s)) = Inr cur" and
    en: "cache_sim_addr_t_of (addr + bytes) (ucast (sets s)) (ucast (linesz s)) = Inr end_addr" and
    loop: "clean_invalidate_loop s cur end_addr True True = Some (Inr s1)" and
    rest: "(case mh of
              None \<Rightarrow> Some (Inr (Cache_sim s1 None))
            | Some m \<Rightarrow>
                (case clean_invalidate m addr bytes True True of
                   None \<Rightarrow> None
                 | Some (Inl e) \<Rightarrow> Some (Inl e)
                 | Some (Inr m1) \<Rightarrow> Some (Inr (Cache_sim s1 (Some m1))))) = Some (Inr c1)"
    by (auto split: sum.splits option.splits)
  from Cache_sim.prems(2,3) have inv: "level_inv s" and small: "unat (ways s) \<le> 2 ^ 31"
    by simp_all
  from clean_invalidate_loop_twice[OF loop] inv small have
    eq: "sets s1 = sets s" "linesz s1 = linesz s" and
    again: "clean_invalidate_loop s1 cur end_addr True True = Some (Inr s1)"
    by simp_all
  show ?case
  proof (cases mh)
    case None
    with rest have "c1 = Cache_sim s1 None" by simp
    with cur en eq again show ?thesis by simp
  next
    case (Some m)
    with rest obtain m1 where
      m1: "clean_invalidate m addr bytes True True = Some (Inr m1)" and
      c1: "c1 = Cache_sim s1 (Some m1)"
      by (auto split: sum.splits option.splits)
    from Cache_sim.IH[of m m1] Some m1 Cache_sim.prems(2,3)
    have "clean_invalidate m1 addr bytes True True = Some (Inr m1)" by simp
    with c1 cur en eq again show ?thesis by simp
  qed
qed

section \<open>The walk of \<open>clean_invalidate\<close> returns\<close>

lemma clean_invalidate_loop_returns:
  assumes "length (tags s) < 2 ^ 32"
  shows "\<exists>r. clean_invalidate_loop s cur end_addr clean inval = Some r"
  using assms
proof (induction "length (tags s) - unat (idx cur)" arbitrary: s cur rule: less_induct)
  case less
  show ?case
  proof (cases "op_lt cur end_addr")
    case False
    then show ?thesis by (subst clean_invalidate_loop.simps) simp
  next
    case True
    show ?thesis
    proof (cases "clean_invalidate_line s cur clean inval")
      case (Inl e)
      with True show ?thesis by (subst clean_invalidate_loop.simps) simp
    next
      case (Inr sA)
      let ?nxt = "next_cacheline cur (ucast (sets sA))"
      from clean_invalidate_line_lookup[OF Inr] obtain hit where "check_tag s cur = Inr hit" by blast
      then have rng: "unat (idx cur) < length (tags s)" by (rule check_tag_in_range)
      from clean_invalidate_line_fewer_valid[OF Inr] have len: "length (tags sA) = length (tags s)"
        by (simp add: fewer_valid_def)
      from rng less.prems have "unat (idx cur) + unat (1 :: 32 word) < 2 ^ LENGTH(32)" by simp
      then have "unat (idx cur + 1) = unat (idx cur) + unat (1 :: 32 word)"
        by (simp only: unat_add_lem)
      then have "unat (idx ?nxt) = Suc (unat (idx cur))" by (simp add: next_cacheline_idx)
      with rng len have "length (tags sA) - unat (idx ?nxt) < length (tags s) - unat (idx cur)"
        by simp
      from less.hyps[OF this] len less.prems
      obtain r where "clean_invalidate_loop sA ?nxt end_addr clean inval = Some r" by auto
      with True Inr show ?thesis by (subst clean_invalidate_loop.simps) simp
    qed
  qed
qed

lemma clean_invalidate_returns:
  "all_levels (\<lambda>s. length (tags s) < 2 ^ 32) c \<Longrightarrow> \<exists>r. clean_invalidate c addr bytes clean inval = Some r"
proof (induction c)
  case (Cache_sim s mh)
  then have len: "length (tags s) < 2 ^ 32" by simp
  show ?case
  proof (cases "cache_sim_addr_t_of addr (ucast (sets s)) (ucast (linesz s))")
    case Inl
    then show ?thesis by simp
  next
    case cur: (Inr cur)
    show ?thesis
    proof (cases "cache_sim_addr_t_of (addr + bytes) (ucast (sets s)) (ucast (linesz s))")
      case Inl
      with cur show ?thesis by simp
    next
      case en: (Inr end_addr)
      from clean_invalidate_loop_returns[OF len] obtain r where
        r: "clean_invalidate_loop s cur end_addr clean inval = Some r" by blast
      show ?thesis
      proof (cases r)
        case Inl
        with cur en r show ?thesis by simp
      next
        case s1: (Inr s1)
        show ?thesis
        proof (cases mh)
          case None
          with cur en r s1 show ?thesis by simp
        next
          case (Some m)
          with Cache_sim.prems have "all_levels (\<lambda>s. length (tags s) < 2 ^ 32) m" by simp
          with Cache_sim.IH[of m] Some obtain rm where
            "clean_invalidate m addr bytes clean inval = Some rm" by auto
          with cur en r s1 Some show ?thesis by (cases rm) simp_all
        qed
      qed
    qed
  qed
qed

section \<open>Accesses return\<close>

lemma ucast_fits: "unat (x :: 64 word) < 2 ^ 32 \<Longrightarrow> unat (ucast x :: 32 word) = unat x"
  by (simp add: unsigned_ucast_eq take_bit_nat_eq_self)

lemma ucast_fits_nonzero: "x \<noteq> 0 \<Longrightarrow> unat (x :: 64 word) < 2 ^ 32 \<Longrightarrow> (ucast x :: 32 word) \<noteq> 0"
proof
  assume a: "x \<noteq> 0" "unat x < 2 ^ 32" "(ucast x :: 32 word) = 0"
  from a(3) have "unat (ucast x :: 32 word) = 0" by simp
  with ucast_fits[OF a(2)] have "unat x = 0" by simp
  with a(1) show False by (simp add: unat_eq_0)
qed

lemma idx_below_sets:
  assumes "(se :: 32 word) \<noteq> 0"
  shows "unat (x AND (se - 1)) < unat se"
proof -
  have "x AND (se - 1) \<le> se - 1" by (rule word_and_le1)
  then have "unat (x AND (se - 1)) \<le> unat (se - 1)" by (simp add: word_le_nat_alt)
  moreover from assms have "unat (se - 1) < unat se"
    by (rule measure_unat)
  ultimately show ?thesis by simp
qed

lemma geometry_fits_codec:
  assumes "geometry_fits s"
  shows "(ucast (sets s) :: 32 word) \<noteq> 0" and "(ucast (linesz s) :: 32 word) \<noteq> 0"
    and "unat (ucast (sets s) :: 32 word) = length (tags s)"
  using assms by (simp_all add: geometry_fits_def ucast_fits_nonzero ucast_fits)

lemma decompose_returns:
  assumes "geometry_fits s"
  shows "\<exists>addr. cache_sim_addr_t_of raw (ucast (sets s)) (ucast (linesz s)) = Inr addr \<and>
           unat (idx addr) < length (tags s)"
proof -
  note g = geometry_fits_codec[OF assms]
  from idx_below_sets[OF g(1)] g(3)
  have "unat (x AND (ucast (sets s) - 1 :: 32 word)) < length (tags s)" for x by simp
  with g(1,2) show ?thesis
    by (simp add: cache_sim_addr_t_of_def log2_u32_def Let_def)
qed

lemma to_uint64_returns:
  assumes "geometry_fits s"
  shows "\<exists>a. to_uint64 x (ucast (sets s)) (ucast (linesz s)) = Inr a"
  using geometry_fits_codec(1,2)[OF assms] by (simp add: to_uint64_def log2_u32_def Let_def)

lemma geometry_fits_other_fields [simp]:
  "geometry_fits (s\<lparr>perf_counter := x\<rparr>) = geometry_fits s"
  "geometry_fits (s\<lparr>policy := y\<rparr>) = geometry_fits s"
  "geometry_fits (s\<lparr>cerr := z\<rparr>) = geometry_fits s"
  "geometry_fits (s\<lparr>log := l\<rparr>) = geometry_fits s"
  by (simp_all add: geometry_fits_def)

lemma level_ok_other_fields [simp]:
  "level_ok G (s\<lparr>perf_counter := x\<rparr>) = level_ok G s"
  "level_ok G (s\<lparr>cerr := z\<rparr>) = level_ok G s"
  "level_ok G (s\<lparr>log := l\<rparr>) = level_ok G s"
  by (simp_all add: level_ok_def)

lemma geometry_fits_row:
  assumes "geometry_fits s" and "i < length (tags s)"
  shows "length (tags s ! i) = unat (ways s)" and "length (tags s ! i) \<le> 2 ^ 31"
proof -
  from assms(2) have "tags s ! i \<in> set (tags s)" by simp
  with assms(1) show "length (tags s ! i) = unat (ways s)" by (simp add: geometry_fits_def)
  with assms(1) show "length (tags s ! i) \<le> 2 ^ 31" by (simp add: geometry_fits_def)
qed

lemma geometry_fits_update:
  assumes "geometry_fits s" and "i < length (tags s)"
  shows "geometry_fits (s\<lparr>tags := (tags s)[i := (tags s ! i)[w := x]]\<rparr>)"
proof -
  from geometry_fits_row(1)[OF assms] have "length ((tags s ! i)[w := x]) = unat (ways s)" by simp
  with assms(1) have "\<forall>row \<in> set ((tags s)[i := (tags s ! i)[w := x]]). length row = unat (ways s)"
    by (intro rows_update) (simp_all add: geometry_fits_def)
  with assms(1) show ?thesis by (simp add: geometry_fits_def)
qed

lemma check_tag_returns: "unat (idx a) < length (tags s) \<Longrightarrow> \<exists>h. check_tag s a = Inr h"
  by (simp add: check_tag_def Let_def)

text \<open>A way that the lookup has found can be written.\<close>

lemma modify_found_returns:
  assumes g: "geometry_fits s" and hit: "check_tag s a = Inr h" and nn: "0 \<le> h"
  shows "\<exists>w. size_t_of_int h = w \<and> w < length (tags s ! unat (idx a)) \<and> unat (idx a) < length (tags s) \<and>
           nat h = w \<and>
           modify_line f (unat (idx a)) (size_t_of_int h) s =
             Inr (s\<lparr>tags := (tags s)[unat (idx a) := (tags s ! unat (idx a))[w := f (tags s ! unat (idx a) ! w)]]\<rparr>)"
proof -
  let ?i = "unat (idx a)"
  from check_tag_in_range[OF hit] have i: "?i < length (tags s)" .
  from geometry_fits_row(2)[OF g i] have small: "length (tags s ! ?i) \<le> 2 ^ 31" .
  from check_tag_hit[OF hit nn small] have
    h: "h = int (std_find (tags s ! ?i) a)" and w: "std_find (tags s ! ?i) a < length (tags s ! ?i)"
    by simp_all
  from w small have "std_find (tags s ! ?i) a < 2 ^ 64" by simp
  with h have sz: "size_t_of_int h = std_find (tags s ! ?i) a" by (simp add: size_t_of_int_nat)
  with i w h show ?thesis by (simp add: modify_line_def)
qed

lemma level_ok_update:
  assumes "level_ok G s" and "i < length (tags s)"
  shows "level_ok G (s\<lparr>tags := (tags s)[i := (tags s ! i)[w := x]]\<rparr>)"
  using assms geometry_fits_update[of s i w x] by (simp add: level_ok_def)

lemma access_hit_returns:
  assumes ok: "policy_contract ops G" and lv: "level_ok G s"
    and hit: "check_tag s addr = Inr h" and nn: "0 \<le> h"
  shows "\<exists>s1. access_hit ops s addr h store = Inr s1 \<and> level_ok G s1"
proof -
  let ?i = "unat (idx addr)"
  from lv have g: "geometry_fits s" by (simp add: level_ok_def)
  from lv obtain p where p: "policy s = Some p" "G p (unat (sets s)) (unat (ways s))"
    by (auto simp: level_ok_def)
  from modify_found_returns[OF g hit nn, of set_dirty] obtain w where
    w: "w < length (tags s ! ?i)" "?i < length (tags s)" "nat h = w" and
    m: "modify_line set_dirty ?i (size_t_of_int h) s =
          Inr (s\<lparr>tags := (tags s)[?i := (tags s ! ?i)[w := set_dirty (tags s ! ?i ! w)]]\<rparr>)"
    by blast
  from g w(2) have ise: "?i < unat (sets s)" by (simp add: geometry_fits_def)
  from geometry_fits_row(1)[OF g w(2)] w have hw: "nat h < unat (ways s)" by simp
  from ok p(2) ise nn hw have G': "G (pol_update ops p addr h) (unat (sets s)) (unat (ways s))"
    unfolding policy_contract_def by blast
  show ?thesis
  proof (cases store)
    case True
    from level_ok_update[OF lv w(2), of w "set_dirty (tags s ! ?i ! w)"] G' g p
    have "level_ok G (s\<lparr>tags := (tags s)[?i := (tags s ! ?i)[w := set_dirty (tags s ! ?i ! w)]],
                       policy := Some (pol_update ops p addr h)\<rparr>)"
      by (simp add: level_ok_def)
    with True m p show ?thesis by (simp add: access_hit_def)
  next
    case False
    from lv G' have "level_ok G (s\<lparr>policy := Some (pol_update ops p addr h)\<rparr>)"
      by (simp add: level_ok_def)
    with False p show ?thesis by (simp add: access_hit_def)
  qed
qed

lemma victimize_returns:
  assumes ok: "policy_contract ops G" and lv: "level_ok G s"
    and i: "unat (idx addr) < length (tags s)"
  shows "\<exists>victim s1. victimize ops s addr = Inr (victim, s1) \<and> level_ok G s1"
proof -
  let ?i = "unat (idx addr)"
  from lv have g: "geometry_fits s" by (simp add: level_ok_def)
  from lv obtain p where p: "policy s = Some p" "G p (unat (sets s)) (unat (ways s))"
    by (auto simp: level_ok_def)
  obtain way p1 where n: "pol_next ops p (idx addr) = (way, p1)" by (cases "pol_next ops p (idx addr)")
  from g i have ise: "?i < unat (sets s)" by (simp add: geometry_fits_def)
  from ok p(2) ise n have way: "unat way < unat (ways s)" and G1: "G p1 (unat (sets s)) (unat (ways s))"
    unfolding policy_contract_def by (metis fst_conv, metis snd_conv)
  from ok G1 ise way have G2: "G (pol_insert ops p1 (idx addr) way) (unat (sets s)) (unat (ways s))"
    unfolding policy_contract_def by blast
  from geometry_fits_row(1)[OF g i] way have w: "unat way < length (tags s ! ?i)" by simp
  from level_ok_update[OF lv i, of "unat way" "set_valid addr"] G2
  have "level_ok G (s\<lparr>tags := (tags s)[?i := (tags s ! ?i)[unat way := set_valid addr]],
                     policy := Some (pol_insert ops p1 (idx addr) way)\<rparr>)"
    by (simp add: level_ok_def)
  with p n i w show ?thesis by (simp add: victimize_def Let_def)
qed

lemma access_miss_returns:
  assumes ok: "policy_contract ops G" and lv: "level_ok G s"
    and i: "unat (idx addr) < length (tags s)"
  shows "\<exists>victim s1. access_miss ops s addr store = Inr (victim, s1) \<and> level_ok G s1"
proof -
  from lv have g: "geometry_fits s" by (simp add: level_ok_def)
  let ?s1 = "s\<lparr>perf_counter := perf_counter s @ [OnMiss store]\<rparr>"
  from to_uint64_returns[OF g] obtain a where
    a: "to_uint64 addr (ucast (sets s)) (ucast (linesz s)) = Inr a" by blast
  show ?thesis
  proof (cases "log s")
    case True
    from lv have "level_ok G (?s1\<lparr>cerr := cerr ?s1 @ [(name ?s1, store, a)]\<rparr>)" by simp
    from victimize_returns[OF ok this] i a True show ?thesis
      by (simp add: access_miss_def Let_def)
  next
    case False
    from lv have "level_ok G ?s1" by simp
    from victimize_returns[OF ok this] i False show ?thesis
      by (simp add: access_miss_def Let_def)
  qed
qed

lemma access_miss_store_returns:
  assumes lv: "level_ok G s" and hit: "check_tag s addr = Inr h" and nn: "0 \<le> h"
  shows "\<exists>s1. access_miss_store s addr = Inr s1 \<and> level_ok G s1"
proof -
  from lv have g: "geometry_fits s" by (simp add: level_ok_def)
  from modify_found_returns[OF g hit nn, of set_dirty] obtain w where
    w: "unat (idx addr) < length (tags s)" and
    m: "modify_line set_dirty (unat (idx addr)) (size_t_of_int h) s =
          Inr (s\<lparr>tags := (tags s)[unat (idx addr) :=
                 (tags s ! unat (idx addr))[w := set_dirty (tags s ! unat (idx addr) ! w)]]\<rparr>)"
    by blast
  from level_ok_update[OF lv w] m hit show ?thesis by (simp add: access_miss_store_def)
qed

lemma access_on_miss_eq:
  assumes "cache_sim_addr_t_of raw_addr (ucast (sets s)) (ucast (linesz s)) = Inr addr"
    and "check_tag s addr = Inr hit" and "hit < 0"
    and "access_miss ops (s\<lparr>perf_counter := perf_counter s @ [OnAccess store bytes]\<rparr>) addr store =
           Inr (victim, s1)"
  shows "access ops (Cache_sim s mh) raw_addr bytes store =
     (case (if valid victim \<and> dirty victim then
              (case (case mh of
                       None \<Rightarrow> Inr None
                     | Some m \<Rightarrow>
                         (case to_uint64 victim (ucast (sets s1)) (ucast (linesz s1)) of
                            Inl e \<Rightarrow> Inl e
                          | Inr dirty_addr \<Rightarrow>
                              (case access ops m dirty_addr (linesz s1) True of
                                 Inl e \<Rightarrow> Inl e
                               | Inr m1 \<Rightarrow> Inr (Some m1)))) of
                 Inl e \<Rightarrow> Inl e
               | Inr mh1 \<Rightarrow> Inr (s1\<lparr>perf_counter := perf_counter s1 @ [OnWriteback]\<rparr>, mh1))
            else Inr (s1, mh)) of
        Inl e \<Rightarrow> Inl e
      | Inr (s2, mh2) \<Rightarrow>
     (case (case mh2 of
              None \<Rightarrow> Inr None
            | Some m \<Rightarrow>
                (case to_uint64 addr (ucast (sets s2)) (ucast (linesz s2)) of
                   Inl e \<Rightarrow> Inl e
                 | Inr fill_addr \<Rightarrow>
                     (case access ops m fill_addr (linesz s2) False of
                        Inl e \<Rightarrow> Inl e
                      | Inr m2 \<Rightarrow> Inr (Some m2)))) of
        Inl e \<Rightarrow> Inl e
      | Inr mh3 \<Rightarrow>
     (case (if store then access_miss_store s2 addr else Inr s2) of
        Inl e \<Rightarrow> Inl e
      | Inr s3 \<Rightarrow> Inr (Cache_sim s3 mh3))))"
  using assms by (simp add: access.simps Let_def)

lemma access_miss_result:
  assumes addr: "cache_sim_addr_t_of raw_addr (ucast (sets s)) (ucast (linesz s)) = Inr addr"
    and hit: "check_tag s addr = Inr hit" and neg: "hit < 0"
    and miss: "access_miss ops (s\<lparr>perf_counter := perf_counter s @ [OnAccess store bytes]\<rparr>) addr store =
           Inr (victim, s1)"
    and fw: "forwarded ops s1 victim addr mh mh'"
    and s2: "s2 = (if valid victim \<and> dirty victim
                   then s1\<lparr>perf_counter := perf_counter s1 @ [OnWriteback]\<rparr> else s1)"
    and st: "if store then access_miss_store s2 addr = Inr s3 else s3 = s2"
  shows "access ops (Cache_sim s mh) raw_addr bytes store = Inr (Cache_sim s3 mh')"
proof -
  note eq = access_on_miss_eq[OF addr hit neg miss, of mh]
  have geo: "sets s2 = sets s1" "linesz s2 = linesz s1" by (simp_all add: s2)
  show ?thesis
  proof (cases mh)
    case None
    with fw have mh': "mh' = None" by (simp add: forwarded_def)
    show ?thesis
    proof (cases "valid victim \<and> dirty victim")
      case True
      with s2 have "s2 = s1\<lparr>perf_counter := perf_counter s1 @ [OnWriteback]\<rparr>" by simp
      with st True None mh' show ?thesis unfolding eq by (cases store) simp_all
    next
      case False
      with s2 have "s2 = s1" by simp
      with st False None mh' show ?thesis unfolding eq by (cases store) auto
    qed
  next
    case (Some m)
    with fw obtain m1 m2 fill_addr where
      a: "if valid victim \<and> dirty victim
          then (\<exists>victim_addr. to_uint64 victim (ucast (sets s1)) (ucast (linesz s1)) = Inr victim_addr \<and>
                  access ops m victim_addr (linesz s1) True = Inr m1)
          else m1 = m" and
      b: "to_uint64 addr (ucast (sets s1)) (ucast (linesz s1)) = Inr fill_addr"
         "access ops m1 fill_addr (linesz s1) False = Inr m2" "mh' = Some m2"
      unfolding forwarded_def by auto
    show ?thesis
    proof (cases "valid victim \<and> dirty victim")
      case True
      with a obtain victim_addr where
        va: "to_uint64 victim (ucast (sets s1)) (ucast (linesz s1)) = Inr victim_addr"
            "access ops m victim_addr (linesz s1) True = Inr m1" by auto
      from True s2 have "s2 = s1\<lparr>perf_counter := perf_counter s1 @ [OnWriteback]\<rparr>" by simp
      with st True Some va b show ?thesis unfolding eq by (cases store) simp_all
    next
      case False
      with a have "m1 = m" by simp
      moreover from False s2 have "s2 = s1" by simp
      ultimately show ?thesis using st False Some b unfolding eq by (cases store) auto
    qed
  qed
qed

lemma levels_pos: "0 < levels c"
proof (cases c)
  case (Cache_sim s mh)
  then show ?thesis by (cases mh) simp_all
qed

lemma access_returns_levels:
  assumes ok: "policy_contract ops G"
  shows "levels c = n \<Longrightarrow> all_levels (level_ok G) c \<Longrightarrow>
         \<exists>c'. access ops c raw_addr bytes store = Inr c' \<and> all_levels (level_ok G) c' \<and> levels c' = n"
proof (induction n arbitrary: c raw_addr bytes store)
  case 0
  with levels_pos[of c] show ?case by simp
next
  case (Suc n)
  obtain s mh where c: "c = Cache_sim s mh" by (cases c)
  let ?s0 = "s\<lparr>perf_counter := perf_counter s @ [OnAccess store bytes]\<rparr>"
  from Suc.prems(2) c have lv: "level_ok G s" by simp
  then have g: "geometry_fits s" by (simp add: level_ok_def)
  from lv have lv0: "level_ok G ?s0" by simp
  from decompose_returns[OF g] obtain addr where
    addr: "cache_sim_addr_t_of raw_addr (ucast (sets s)) (ucast (linesz s)) = Inr addr" and
    i: "unat (idx addr) < length (tags s)" by blast
  from check_tag_returns[OF i] obtain hit where hit: "check_tag s addr = Inr hit" by blast
  then have hit0: "check_tag ?s0 addr = Inr hit" by simp
  show ?case
  proof (cases "0 \<le> hit")
    case True
    from access_hit_returns[OF ok lv0 hit0 True] obtain s1 where
      "access_hit ops ?s0 addr hit store = Inr s1" "level_ok G s1" by blast
    with access_on_hit[OF addr hit True, of ops mh bytes store] Suc.prems c
    show ?thesis by (cases mh) simp_all
  next
    case False
    then have neg: "hit < 0" by simp
    from i have i0: "unat (idx addr) < length (tags ?s0)" by simp
    from access_miss_returns[OF ok lv0 i0] obtain victim s1 where
      miss: "access_miss ops ?s0 addr store = Inr (victim, s1)" and lv1: "level_ok G s1" by blast
    from lv1 have g1: "geometry_fits s1" by (simp add: level_ok_def)
    from decomposed_flags[OF addr] have v: "valid addr" by simp
    from miss_refinds_way[OF hit neg geometry_fits_row(2)[OF g i] v miss] obtain way :: "64 word" where
      f1: "check_tag s1 addr = Inr (int (unat way))" by blast
    define s2 where "s2 = (if valid victim \<and> dirty victim
                           then s1\<lparr>perf_counter := perf_counter s1 @ [OnWriteback]\<rparr> else s1)"
    from lv1 have lv2: "level_ok G s2" by (simp add: s2_def)
    from f1 have f2: "check_tag s2 addr = Inr (int (unat way))" by (simp add: s2_def)
    from access_miss_store_returns[OF lv2 f2] obtain s3 where
      st: "access_miss_store s2 addr = Inr s3" and lv3: "level_ok G s3" by auto
    define s4 where "s4 = (if store then s3 else s2)"
    from lv2 lv3 have lv4: "level_ok G s4" by (simp add: s4_def)
    from st have st4: "if store then access_miss_store s2 addr = Inr s4 else s4 = s2"
      by (simp add: s4_def)
    from to_uint64_returns[OF g1] obtain va where
      va: "to_uint64 victim (ucast (sets s1)) (ucast (linesz s1)) = Inr va" by blast
    from to_uint64_returns[OF g1] obtain fa where
      fa: "to_uint64 addr (ucast (sets s1)) (ucast (linesz s1)) = Inr fa" by blast
    have "\<exists>mh'. forwarded ops s1 victim addr mh mh' \<and> levels (Cache_sim s4 mh') = Suc n \<and>
                (case mh' of None \<Rightarrow> True | Some m' \<Rightarrow> all_levels (level_ok G) m')"
    proof (cases mh)
      case None
      with Suc.prems(1) c show ?thesis by (simp add: forwarded_def)
    next
      case (Some m)
      with Suc.prems c have lm: "levels m = n" and am: "all_levels (level_ok G) m" by simp_all
      have "\<exists>m1. (if valid victim \<and> dirty victim then access ops m va (linesz s1) True = Inr m1 else m1 = m) \<and>
                 all_levels (level_ok G) m1 \<and> levels m1 = n"
      proof (cases "valid victim \<and> dirty victim")
        case True
        from Suc.IH[OF lm am, of va "linesz s1" True] True show ?thesis by auto
      next
        case False
        with lm am show ?thesis by auto
      qed
      then obtain m1 where
        m1: "if valid victim \<and> dirty victim then access ops m va (linesz s1) True = Inr m1 else m1 = m"
        and am1: "all_levels (level_ok G) m1" and lm1: "levels m1 = n" by blast
      from Suc.IH[OF lm1 am1, of fa "linesz s1" False] obtain m2 where
        m2: "access ops m1 fa (linesz s1) False = Inr m2" and am2: "all_levels (level_ok G) m2"
        and lm2: "levels m2 = n" by blast
      from m1 va fa m2 Some have "forwarded ops s1 victim addr mh (Some m2)"
        unfolding forwarded_def by (cases "valid victim \<and> dirty victim") auto
      with am2 lm2 show ?thesis by (intro exI[where x = "Some m2"]) simp
    qed
    then obtain mh' where fw: "forwarded ops s1 victim addr mh mh'"
      and l': "levels (Cache_sim s4 mh') = Suc n"
      and a': "case mh' of None \<Rightarrow> True | Some m' \<Rightarrow> all_levels (level_ok G) m'" by blast
    from access_miss_result[OF addr hit neg miss fw s2_def st4] c lv4 l' a'
    show ?thesis by simp
  qed
qed

lemma access_returns:
  assumes "policy_contract ops G" and "all_levels (level_ok G) c"
  shows "\<exists>c'. access ops c raw_addr bytes store = Inr c' \<and> all_levels (level_ok G) c'"
  using access_returns_levels[OF assms(1) refl assms(2), of raw_addr bytes store] by blast

section \<open>The FIFO policy is within the contract\<close>

lemma fifo_contract: "policy_contract fifo_ops fifo_queues"
  unfolding policy_contract_def
proof (intro conjI allI impI)
  fix k :: policy_kind and se w :: "64 word"
  assume "0 < unat w"
  then show "fifo_queues (pol_new fifo_ops k se w) (unat se) (unat w)"
    by (auto simp: fifo_ops_def fifo_queues_def)
next
  fix p :: "nat list list" and se w :: nat and i :: "32 word"
  assume a: "fifo_queues p se w \<and> unat i < se"
  then have "p ! unat i \<in> set p" by (simp add: fifo_queues_def)
  with a have "p ! unat i \<noteq> []" "\<forall>x \<in> set (p ! unat i). x < w" by (auto simp: fifo_queues_def)
  then have "hd (p ! unat i) < w" by simp
  moreover have "unat (word_of_nat (hd (p ! unat i)) :: 64 word) \<le> hd (p ! unat i)"
    by (simp add: unat_of_nat)
  ultimately show "unat (fst (pol_next fifo_ops p i)) < w" by (simp add: fifo_ops_def)
  from a show "fifo_queues (snd (pol_next fifo_ops p i)) se w" by (simp add: fifo_ops_def)
next
  fix p :: "nat list list" and se w :: nat and i :: "32 word" and y :: "64 word"
  assume a: "fifo_queues p se w \<and> unat i < se \<and> unat y < w"
  let ?q = "remove1 (unat y) (p ! unat i) @ [unat y]"
  from a have "p ! unat i \<in> set p" by (simp add: fifo_queues_def)
  with a have "\<forall>x \<in> set (p ! unat i). x < w" by (auto simp: fifo_queues_def)
  with a have q: "?q \<noteq> [] \<and> (\<forall>x \<in> set ?q. x < w)"
    using set_remove1_subset[of "unat y" "p ! unat i"] by auto
  have "set (p[unat i := ?q]) \<subseteq> insert ?q (set p)" by (rule set_update_subset_insert)
  with a q have "\<forall>r \<in> set (p[unat i := ?q]). r \<noteq> [] \<and> (\<forall>x \<in> set r. x < w)"
    unfolding fifo_queues_def by blast
  with a show "fifo_queues (pol_insert fifo_ops p i y) se w"
    by (simp add: fifo_ops_def fifo_queues_def)
next
  fix p :: "nat list list" and se w :: nat and a :: cache_sim_addr_t and h :: int
  assume "fifo_queues p se w \<and> unat (idx a) < se \<and> 0 \<le> h \<and> nat h < w"
  then show "fifo_queues (pol_update fifo_ops p a h) se w" by (simp add: fifo_ops_def)
qed

section \<open>A fresh engine\<close>

lemma create_eviction_policy_valid:
  assumes "policy_is_valid e"
  shows "\<exists>k. create_eviction_policy ops s e = Some (pol_new ops k (sets s) (ways s))"
  using assms unfolding policy_is_valid_def
proof (elim disjE)
  assume "e = ''lfsr''"
  then have "create_eviction_policy ops s e = Some (pol_new ops Lfsr (sets s) (ways s))"
    by (simp add: create_eviction_policy_def)
  then show ?thesis ..
next
  assume "e = ''lru''"
  then have "create_eviction_policy ops s e = Some (pol_new ops Lru (sets s) (ways s))"
    by (simp add: create_eviction_policy_def)
  then show ?thesis ..
next
  assume "e = ''fifo''"
  then have "create_eviction_policy ops s e = Some (pol_new ops Fifo (sets s) (ways s))"
    by (simp add: create_eviction_policy_def)
  then show ?thesis ..
next
  assume "e = ''lip''"
  then have "create_eviction_policy ops s e = Some (pol_new ops Lip (sets s) (ways s))"
    by (simp add: create_eviction_policy_def)
  then show ?thesis ..
next
  assume "e = ''bip''"
  then have "create_eviction_policy ops s e = Some (pol_new ops Bip (sets s) (ways s))"
    by (simp add: create_eviction_policy_def)
  then show ?thesis ..
qed

lemma new_level_ok:
  assumes ok: "policy_contract ops G"
    and new: "cache_sim_t_new ops sets0 ways0 linesz0 name0 eviction_policy = Inr c0"
    and tok: "policy_is_valid eviction_policy"
    and fits: "unat sets0 < 2 ^ 32" "unat linesz0 < 2 ^ 32" "0 < unat ways0" "unat ways0 \<le> 2 ^ 31"
  shows "level_ok G (self c0)"
proof -
  let ?s = "\<lparr>sets = sets0, ways = ways0, linesz = linesz0, tags = [], policy = None,
               name = name0, log = False, perf_counter = [], cerr = []\<rparr> :: 'a cache_state"
  from new have i: "init ops ?s eviction_policy = Inr c0" by (simp add: cache_sim_t_new_def)
  from init_rejects_geometry[of ?s ops eviction_policy] i
  have nz: "sets0 \<noteq> 0" "\<not> linesz0 < 8" by auto
  then have "linesz0 \<noteq> 0" by auto
  from create_eviction_policy_valid[OF tok, of ops ?s] obtain k where
    k: "create_eviction_policy ops ?s eviction_policy = Some (pol_new ops k sets0 ways0)" by auto
  from ok fits(3) have "G (pol_new ops k sets0 ways0) (unat sets0) (unat ways0)"
    unfolding policy_contract_def by blast
  with init_Inr[OF i] k nz(1) \<open>linesz0 \<noteq> 0\<close> fits show ?thesis
    by (auto simp: level_ok_def geometry_fits_def)
qed

section \<open>The walk of \<open>clean_invalidate\<close> within the tag array\<close>

lemma clean_invalidate_line_returns:
  assumes g: "geometry_fits s" and i: "unat (idx cur) < length (tags s)"
  shows "\<exists>s1. clean_invalidate_line s cur clean inval = Inr s1 \<and> geometry_fits s1 \<and> sets s1 = sets s"
proof -
  let ?i = "unat (idx cur)"
  from check_tag_returns[OF i] obtain hit where hit: "check_tag s cur = Inr hit" by blast
  show ?thesis
  proof (cases "0 \<le> hit")
    case False
    with hit g show ?thesis by (simp add: clean_invalidate_line_def)
  next
    case True
    from modify_found_returns[OF g hit True, of id] obtain w where
      sz: "size_t_of_int hit = w" and w: "w < length (tags s ! ?i)" by blast
    let ?line = "tags s ! ?i ! w"
    define sA where "sA = (if clean \<and> dirty ?line
        then s\<lparr>perf_counter := perf_counter s @ [OnWriteback, OnClean],
               tags := (tags s)[?i := (tags s ! ?i)[w := set_clean ?line]]\<rparr>
        else s)"
    define sB where "sB = (if inval
        then sA\<lparr>tags := (tags sA)[?i := (tags sA ! ?i)[w := set_invalid (tags sA ! ?i ! w)]]\<rparr>
        else sA)"
    have gA: "geometry_fits sA" and iA: "?i < length (tags sA)" and wA: "w < length (tags sA ! ?i)"
      and seA: "sets sA = sets s"
      using g i w geometry_fits_update[OF g i, of w "set_clean ?line"]
      by (auto simp: sA_def geometry_fits_def)
    have gB: "geometry_fits sB" and seB: "sets sB = sets s"
      using gA seA geometry_fits_update[OF gA iA, of w "set_invalid (tags sA ! ?i ! w)"]
      by (auto simp: sB_def)
    have "clean_invalidate_line s cur clean inval = Inr sB"
      using hit True sz i w iA wA
      by (auto simp: clean_invalidate_line_def Let_def read_line_def modify_line_def sA_def sB_def)
    with gB seB show ?thesis by simp
  qed
qed

lemma clean_invalidate_loop_in_range:
  assumes "geometry_fits s" and "unat (idx en) < unat (sets s)"
    and "op_lt cur en \<longrightarrow> unat (idx cur) < unat (sets s) \<and> (tag en = tag cur \<or> tag en = tag cur + 1)"
  shows "\<exists>s1. clean_invalidate_loop s cur en clean inval = Some (Inr s1)"
  using assms
proof (induction "unat (sets s) - unat (idx cur)" arbitrary: s cur rule: less_induct)
  case less
  show ?case
  proof (cases "op_lt cur en")
    case False
    then show ?thesis by (subst clean_invalidate_loop.simps) simp
  next
    case True
    with less.prems(3) have ic: "unat (idx cur) < unat (sets s)"
      and tg: "tag en = tag cur \<or> tag en = tag cur + 1" by simp_all
    from less.prems(1) have fits: "unat (sets s) < 2 ^ 32" and len: "length (tags s) = unat (sets s)"
      and nz: "sets s \<noteq> 0"
      by (simp_all add: geometry_fits_def)
    from ic len have i: "unat (idx cur) < length (tags s)" by simp
    from clean_invalidate_line_returns[OF less.prems(1) i] obtain sA where
      line: "clean_invalidate_line s cur clean inval = Inr sA" and gA: "geometry_fits sA"
      and seA: "sets sA = sets s" by blast
    let ?se = "ucast (sets s) :: 32 word"
    let ?nxt = "next_cacheline cur ?se"
    have use: "unat ?se = unat (sets s)" using fits by (rule ucast_fits)
    from nz fits have nz32: "?se \<noteq> 0" by (rule ucast_fits_nonzero)
    then have um: "unat (?se - 1) = unat (sets s) - 1" using use by (simp add: unat_minus_one)
    from ic fits have "unat (idx cur) + unat (1 :: 32 word) < 2 ^ LENGTH(32)" by simp
    then have "unat (idx cur + 1) = unat (idx cur) + unat (1 :: 32 word)"
      by (simp only: unat_add_lem)
    then have inx: "unat (idx ?nxt) = Suc (unat (idx cur))" by (simp add: next_cacheline_idx)
    have "\<exists>s1. clean_invalidate_loop sA ?nxt en clean inval = Some (Inr s1)"
    proof (cases "idx cur = ?se - 1")
      case last: True
      then have tn: "tag ?nxt = tag cur + 1" by (simp add: next_cacheline_tag)
      from last um have "unat (idx cur) = unat (sets s) - 1" by simp
      with ic inx have full: "unat (idx ?nxt) = unat (sets s)" by simp
      have "tag en \<noteq> tag cur"
      proof
        assume "tag en = tag cur"
        with True have "idx cur < idx en" by (simp add: op_lt_def)
        then have "unat (idx cur) < unat (idx en)" by (simp add: word_less_nat_alt)
        with less.prems(2) \<open>unat (idx cur) = unat (sets s) - 1\<close> show False by simp
      qed
      with tg tn have "tag ?nxt = tag en" by simp
      moreover from full less.prems(2) have "\<not> idx ?nxt < idx en" by (simp add: word_less_nat_alt)
      ultimately have "\<not> op_lt ?nxt en" by (simp add: op_lt_def)
      then show ?thesis by (subst clean_invalidate_loop.simps) simp
    next
      case inner: False
      then have tn: "tag ?nxt = tag cur" by (simp add: next_cacheline_tag)
      from inner have "unat (idx cur) \<noteq> unat (?se - 1)" by (simp add: word_unat_eq_iff)
      with um ic inx have lt: "unat (idx ?nxt) < unat (sets sA)" using seA by simp
      from inx ic seA have dec: "unat (sets sA) - unat (idx ?nxt) < unat (sets s) - unat (idx cur)"
        by simp
      show ?thesis
      proof (rule less.hyps[OF dec gA])
        show "unat (idx en) < unat (sets sA)" using less.prems(2) seA by simp
        show "op_lt ?nxt en \<longrightarrow> unat (idx ?nxt) < unat (sets sA) \<and>
              (tag en = tag ?nxt \<or> tag en = tag ?nxt + 1)"
          using lt tg tn by simp
      qed
    qed
    with True line seA show ?thesis by (subst clean_invalidate_loop.simps) simp
  qed
qed

lemma clean_invalidate_in_range:
  "all_levels geometry_fits c \<Longrightarrow> all_levels (walk_in_range addr bytes) c \<Longrightarrow>
   \<exists>c1. clean_invalidate c addr bytes clean inval = Some (Inr c1)"
proof (induction c)
  case (Cache_sim s mh)
  from Cache_sim.prems have g: "geometry_fits s" and wk: "walk_in_range addr bytes s" by simp_all
  from g have len: "length (tags s) = unat (sets s)" by (simp add: geometry_fits_def)
  from decompose_returns[OF g, of addr] obtain cur where
    cur: "cache_sim_addr_t_of addr (ucast (sets s)) (ucast (linesz s)) = Inr cur" and
    ic: "unat (idx cur) < length (tags s)" by blast
  from decompose_returns[OF g, of "addr + bytes"] obtain en where
    en: "cache_sim_addr_t_of (addr + bytes) (ucast (sets s)) (ucast (linesz s)) = Inr en" and
    ie: "unat (idx en) < length (tags s)" by blast
  from wk cur en have "\<not> op_lt cur en \<or> tag en = tag cur \<or> tag en = tag cur + 1"
    by (simp add: walk_in_range_def)
  with ic len have "op_lt cur en \<longrightarrow> unat (idx cur) < unat (sets s) \<and> (tag en = tag cur \<or> tag en = tag cur + 1)"
    by auto
  from clean_invalidate_loop_in_range[OF g _ this, of clean inval] ie len obtain s1 where
    loop: "clean_invalidate_loop s cur en clean inval = Some (Inr s1)" by auto
  show ?case
  proof (cases mh)
    case None
    with cur en loop show ?thesis by simp
  next
    case (Some m)
    with Cache_sim.prems Cache_sim.IH[of m] obtain m1 where
      "clean_invalidate m addr bytes clean inval = Some (Inr m1)" by auto
    with Some cur en loop show ?thesis by simp
  qed
qed

lemma clean_invalidate_loop_leaves:
  assumes "geometry_fits s" and "unat (idx cur) < unat (sets s)"
    and "valid cur" and "valid en" and "tag cur < tag en" and "tag en \<noteq> tag cur + 1"
  shows "clean_invalidate_loop s cur en clean inval = Some (Inl OutOfBounds)"
  using assms(1,2,3,5,6)
proof (induction "unat (sets s) - unat (idx cur)" arbitrary: s cur rule: less_induct)
  case less
  from less.prems(3,4) assms(4) have lt: "op_lt cur en" by (simp add: op_lt_def)
  from less.prems(1) have fits: "unat (sets s) < 2 ^ 32" and len: "length (tags s) = unat (sets s)"
    and nz: "sets s \<noteq> 0"
    by (simp_all add: geometry_fits_def)
  from less.prems(2) len have i: "unat (idx cur) < length (tags s)" by simp
  from clean_invalidate_line_returns[OF less.prems(1) i] obtain sA where
    line: "clean_invalidate_line s cur clean inval = Inr sA" and gA: "geometry_fits sA"
    and seA: "sets sA = sets s" by blast
  let ?se = "ucast (sets s) :: 32 word"
  let ?nxt = "next_cacheline cur ?se"
  have use: "unat ?se = unat (sets s)" using fits by (rule ucast_fits)
  from nz fits have nz32: "?se \<noteq> 0" by (rule ucast_fits_nonzero)
  then have um: "unat (?se - 1) = unat (sets s) - 1" using use by (simp add: unat_minus_one)
  from less.prems(2) fits have "unat (idx cur) + unat (1 :: 32 word) < 2 ^ LENGTH(32)" by simp
  then have "unat (idx cur + 1) = unat (idx cur) + unat (1 :: 32 word)"
    by (simp only: unat_add_lem)
  then have inx: "unat (idx ?nxt) = Suc (unat (idx cur))" by (simp add: next_cacheline_idx)
  have vn: "valid ?nxt" using less.prems(3) by (simp add: next_cacheline_valid)
  have "clean_invalidate_loop sA ?nxt en clean inval = Some (Inl OutOfBounds)"
  proof (cases "idx cur = ?se - 1")
    case last: True
    then have tn: "tag ?nxt = tag cur + 1" by (simp add: next_cacheline_tag)
    from last um have "unat (idx cur) = unat (sets s) - 1" by simp
    with less.prems(2) inx have full: "unat (idx ?nxt) = unat (sets s)" by simp
    from less.prems(4) have "tag cur + 1 \<le> tag en" by (rule inc_le)
    with less.prems(5) have "tag cur + 1 < tag en" by simp
    with tn vn assms(4) have lt': "op_lt ?nxt en" by (simp add: op_lt_def)
    from gA seA full have "\<not> unat (idx ?nxt) < length (tags sA)" by (simp add: geometry_fits_def)
    then have "clean_invalidate_line sA ?nxt clean inval = Inl OutOfBounds"
      by (simp add: clean_invalidate_line_def check_tag_def)
    with lt' show ?thesis by (subst clean_invalidate_loop.simps) simp
  next
    case inner: False
    then have tn: "tag ?nxt = tag cur" by (simp add: next_cacheline_tag)
    from inner have "unat (idx cur) \<noteq> unat (?se - 1)" by (simp add: word_unat_eq_iff)
    with um less.prems(2) inx have lt': "unat (idx ?nxt) < unat (sets sA)" using seA by simp
    from inx less.prems(2) seA have dec: "unat (sets sA) - unat (idx ?nxt) < unat (sets s) - unat (idx cur)"
      by simp
    from less.hyps[OF dec gA lt' vn] tn less.prems(4,5) show ?thesis by simp
  qed
  with lt line seA show ?case by (subst clean_invalidate_loop.simps) simp
qed

text \<open>A range outside \<open>walk_in_range\<close> leaves the tag array.\<close>

lemma clean_invalidate_walk_leaves:
  assumes g: "geometry_fits s" and wk: "\<not> walk_in_range addr bytes s"
  shows "clean_invalidate (Cache_sim s mh) addr bytes clean inval = Some (Inl OutOfBounds)"
proof -
  from g have len: "length (tags s) = unat (sets s)" by (simp add: geometry_fits_def)
  from decompose_returns[OF g, of addr] obtain cur where
    cur: "cache_sim_addr_t_of addr (ucast (sets s)) (ucast (linesz s)) = Inr cur" and
    ic: "unat (idx cur) < length (tags s)" by blast
  from decompose_returns[OF g, of "addr + bytes"] obtain en where
    en: "cache_sim_addr_t_of (addr + bytes) (ucast (sets s)) (ucast (linesz s)) = Inr en" by blast
  from wk cur en have lt: "op_lt cur en" and ne: "tag en \<noteq> tag cur" "tag en \<noteq> tag cur + 1"
    by (simp_all add: walk_in_range_def)
  from lt ne(1) have "tag cur < tag en" "valid cur" "valid en" by (auto simp: op_lt_def)
  from clean_invalidate_loop_leaves[OF g _ this(2,3,1) ne(2), of clean inval] ic len
  have "clean_invalidate_loop s cur en clean inval = Some (Inl OutOfBounds)" by simp
  with cur en show ?thesis by simp
qed

section \<open>Miss, hit, invariant and idempotence\<close>

text \<open>
  Claim C6. In a chain whose levels all have a geometry within the range of the types
  (sets and line size below \<open>2 ^ 32\<close>, at most \<open>2 ^ 31\<close> ways) and a policy within its
  contract, every access that misses returns, and then: the counter sink has received the
  access, the miss and, exactly when the victim was valid and dirty, one write-back, with
  or without a next level. A next level has received \<open>access\<close> for the victim's
  recomposed address with the line size as a store (only for a valid dirty victim) and then
  \<open>access\<close> for the new line's recomposed address with the line size as a read, also
  when the access is a store. The chosen way of the tag array holds the new line at the
  end, dirty exactly when the access is a store.
\<close>

theorem access_miss_writeback_then_fill:
  assumes ok: "policy_contract ops G" and lv: "all_levels (level_ok G) (Cache_sim s mh)"
    and addr: "cache_sim_addr_t_of raw_addr (ucast (sets s)) (ucast (linesz s)) = Inr addr"
    and hit: "check_tag s addr = Inr hit" and neg: "hit < 0"
  shows "\<exists>c' p way p1 victim.
     access ops (Cache_sim s mh) raw_addr bytes store = Inr c' \<and>
     policy s = Some p \<and> pol_next ops p (idx addr) = (way, p1) \<and>
     victim = tags s ! unat (idx addr) ! unat way \<and>
     perf_counter (self c') =
       perf_counter s @ [OnAccess store bytes, OnMiss store] @
       (if valid victim \<and> dirty victim then [OnWriteback] else []) \<and>
     (case mh of
        None \<Rightarrow> miss_handler c' = None
      | Some m \<Rightarrow>
          (\<exists>m1 m2 fill_addr.
             (if valid victim \<and> dirty victim
              then (\<exists>victim_addr. to_uint64 victim (ucast (sets s)) (ucast (linesz s)) = Inr victim_addr \<and>
                      access ops m victim_addr (linesz s) True = Inr m1)
              else m1 = m) \<and>
             to_uint64 addr (ucast (sets s)) (ucast (linesz s)) = Inr fill_addr \<and>
             access ops m1 fill_addr (linesz s) False = Inr m2 \<and> miss_handler c' = Some m2)) \<and>
     tags (self c') =
       (tags s)[unat (idx addr) := (tags s ! unat (idx addr))[unat way := addr\<lparr>dirty := store\<rparr>]]"
proof -
  from access_returns[OF ok lv] obtain c' where
    ret: "access ops (Cache_sim s mh) raw_addr bytes store = Inr c'" by blast
  from lv have g: "geometry_fits s" by (simp add: level_ok_def)
  from geometry_fits_row(2)[OF g check_tag_in_range[OF hit]]
  have small: "length (tags s ! unat (idx addr)) \<le> 2 ^ 31" .
  from access_miss_sequence[OF addr hit neg ret] small ret show ?thesis
    by blast
qed

text \<open>
  Claim C7. A fresh engine with a valid policy name, sets and line size below \<open>2 ^ 32\<close>
  and between 1 and \<open>2 ^ 31\<close> ways, with a policy within its contract, alone or linked
  to a chain of such levels, serves a read of \<open>a\<close>: the call returns. The next access to
  an address of the same line, read or store, returns as a hit: the counter sink receives
  the access and no miss, the next level is left as it was, the entry is marked dirty only
  for a store, and the policy is told by \<open>update\<close>.
\<close>

theorem hit_after_cold_miss:
  assumes ok: "policy_contract ops G"
    and new: "cache_sim_t_new ops sets0 ways0 linesz0 name0 eviction_policy = Inr c0"
    and tok: "policy_is_valid eviction_policy"
    and fits: "unat sets0 < 2 ^ 32" "unat linesz0 < 2 ^ 32" "0 < unat ways0" "unat ways0 \<le> 2 ^ 31"
    and chain: "case mh of None \<Rightarrow> True | Some m \<Rightarrow> all_levels (level_ok G) m"
    and same: "cache_sim_addr_t_of a' (ucast sets0) (ucast linesz0) =
               cache_sim_addr_t_of a (ucast sets0) (ucast linesz0)"
  shows "\<exists>c1 addr way p.
     access ops (Cache_sim (self c0) mh) a n False = Inr c1 \<and>
     cache_sim_addr_t_of a (ucast sets0) (ucast linesz0) = Inr addr \<and>
     policy (self c1) = Some p \<and>
     unat (idx addr) < length (tags (self c1)) \<and>
     way < length (tags (self c1) ! unat (idx addr)) \<and>
     tags (self c1) ! unat (idx addr) ! way = addr \<and>
     access ops c1 a' n' store =
       Inr (Cache_sim
             ((self c1)\<lparr>perf_counter := perf_counter (self c1) @ [OnAccess store n'],
                        tags := (if store
                                 then (tags (self c1))[unat (idx addr) :=
                                        (tags (self c1) ! unat (idx addr))[way := set_dirty addr]]
                                 else tags (self c1)),
                        policy := Some (pol_update ops p addr (int way))\<rparr>)
             (miss_handler c1))"
proof -
  from new_level_ok[OF ok new tok fits] chain
  have lv: "all_levels (level_ok G) (Cache_sim (self c0) mh)" by simp
  from access_returns[OF ok lv] obtain c1 where
    first: "access ops (Cache_sim (self c0) mh) a n False = Inr c1" by blast
  from fresh_miss_then_hit[OF new fits(4) first same, of n' store] first show ?thesis by blast
qed

text \<open>
  Claim C10. In every engine that a program can build, on every level of at most
  \<open>2 ^ 31\<close> ways no row of the tag array holds two valid entries with the same tag.
  After a miss on a first level of at most \<open>2 ^ 31\<close> ways the lookup of the new line
  finds the way that \<open>victimize\<close> has just filled, before and after the write-back is
  counted, so the store path marks that way; and when the geometry of the level is
  within the range of the types and its policy within the contract, the miss does fill a
  way.
\<close>

theorem reachable_distinct_tags:
  assumes "reachable ops c"
  shows "all_levels (\<lambda>s. unat (ways s) \<le> 2 ^ 31 \<longrightarrow> no_dup_tags s) c \<and>
    (\<forall>raw_addr addr hit bytes store.
       unat (ways (self c)) \<le> 2 ^ 31 \<and>
       cache_sim_addr_t_of raw_addr (ucast (sets (self c))) (ucast (linesz (self c))) = Inr addr \<and>
       check_tag (self c) addr = Inr hit \<and> hit < 0 \<longrightarrow>
       (\<forall>victim s1.
          access_miss ops ((self c)\<lparr>perf_counter := perf_counter (self c) @ [OnAccess store bytes]\<rparr>)
            addr store = Inr (victim, s1) \<longrightarrow>
          (\<exists>p way p1. policy (self c) = Some p \<and> pol_next ops p (idx addr) = (way, p1) \<and>
             tags s1 ! unat (idx addr) ! unat way = addr \<and>
             check_tag s1 addr = Inr (int (unat way)) \<and>
             check_tag (s1\<lparr>perf_counter := perf_counter s1 @ [OnWriteback]\<rparr>) addr = Inr (int (unat way)))) \<and>
       (policy_contract ops G \<and> level_ok G (self c) \<longrightarrow>
        (\<exists>victim s1.
           access_miss ops ((self c)\<lparr>perf_counter := perf_counter (self c) @ [OnAccess store bytes]\<rparr>)
             addr store = Inr (victim, s1))))"
proof (intro conjI allI impI)
  from reachable_level_inv[OF assms]
  show "all_levels (\<lambda>s. unat (ways s) \<le> 2 ^ 31 \<longrightarrow> no_dup_tags s) c"
    by (rule all_levels_mono) (simp add: level_inv_def)
next
  fix raw_addr addr hit bytes store victim s1
  assume h: "unat (ways (self c)) \<le> 2 ^ 31 \<and>
       cache_sim_addr_t_of raw_addr (ucast (sets (self c))) (ucast (linesz (self c))) = Inr addr \<and>
       check_tag (self c) addr = Inr hit \<and> hit < 0"
    and miss0: "access_miss ops ((self c)\<lparr>perf_counter := perf_counter (self c) @ [OnAccess store bytes]\<rparr>)
         addr store = Inr (victim, s1)"
  obtain s mh where c: "c = Cache_sim s mh" by (cases c)
  from reachable_level_inv[OF assms] c have inv: "level_inv s" by simp
  from h c have hit: "check_tag s addr = Inr hit" and neg: "hit < 0" by simp_all
  from check_tag_in_range[OF hit] have "tags s ! unat (idx addr) \<in> set (tags s)" by simp
  with inv h c have small: "length (tags s ! unat (idx addr)) \<le> 2 ^ 31"
    by (simp add: level_inv_def)
  from h have fl: "valid addr" using decomposed_flags by blast
  then have sv: "set_valid addr = addr" by (simp add: set_valid_def)
  from miss0 c have miss: "access_miss ops (s\<lparr>perf_counter := perf_counter s @ [OnAccess store bytes]\<rparr>)
         addr store = Inr (victim, s1)" by simp
  from miss_refinds_way[OF hit neg small fl miss] c sv
  show "\<exists>p way p1. policy (self c) = Some p \<and> pol_next ops p (idx addr) = (way, p1) \<and>
          tags s1 ! unat (idx addr) ! unat way = addr \<and>
          check_tag s1 addr = Inr (int (unat way)) \<and>
          check_tag (s1\<lparr>perf_counter := perf_counter s1 @ [OnWriteback]\<rparr>) addr = Inr (int (unat way))"
    by simp
next
  fix raw_addr addr hit bytes store
  assume h: "unat (ways (self c)) \<le> 2 ^ 31 \<and>
       cache_sim_addr_t_of raw_addr (ucast (sets (self c))) (ucast (linesz (self c))) = Inr addr \<and>
       check_tag (self c) addr = Inr hit \<and> hit < 0"
    and ok: "policy_contract ops G \<and> level_ok G (self c)"
  let ?s0 = "(self c)\<lparr>perf_counter := perf_counter (self c) @ [OnAccess store bytes]\<rparr>"
  from ok have lv0: "level_ok G ?s0" by simp
  from h have "unat (idx addr) < length (tags ?s0)" using check_tag_in_range[of "self c" addr hit] by simp
  from access_miss_returns[OF _ lv0 this, of ops store] ok
  show "\<exists>victim s1. access_miss ops ?s0 addr store = Inr (victim, s1)" by blast
qed

text \<open>
  Claim C8. In an engine that a program can build, where on every level the geometry is
  within the range of the types (sets and line size below \<open>2 ^ 32\<close>, at most \<open>2 ^ 31\<close>
  ways) and the range ends in the tag of its first line or in the next one:
  \<open>clean_invalidate(a, n, true, true)\<close> returns, and the same call on the state it left
  returns that very state, on every level: the same tag array, and no further write-back
  or clean event.
\<close>

theorem clean_invalidate_twice:
  assumes "reachable ops c" and "all_levels geometry_fits c"
    and "all_levels (walk_in_range addr bytes) c"
  shows "\<exists>c1. clean_invalidate c addr bytes True True = Some (Inr c1) \<and>
              clean_invalidate c1 addr bytes True True = Some (Inr c1)"
proof -
  from clean_invalidate_in_range[OF assms(2,3)] obtain c1 where
    c1: "clean_invalidate c addr bytes True True = Some (Inr c1)" by blast
  from assms(2) have "all_levels (\<lambda>s. unat (ways s) \<le> 2 ^ 31) c"
    by (rule all_levels_mono) (simp add: geometry_fits_def)
  from clean_invalidate_again[OF c1 reachable_level_inv[OF assms(1)] this] c1 show ?thesis by blast
qed

section \<open>Runs of the chain of two caches\<close>

lemmas eval_defs = cache_sim_t_new_def init_def create_eviction_policy_def
  fifo_ops_def replicate_numeral_Cons cache_sim_addr_t_of_def to_uint64_def log2_u32_def
  floor_log2.simps check_tag_def cache_sim_addr_t_default_def op_eq_def op_lt_def
  next_cacheline_def clean_invalidate_line_def modify_line_def read_line_def size_t_of_int_def
  victimize_def access_hit_def access_miss_def access_miss_store_def set_valid_def set_dirty_def
  set_clean_def set_invalid_def Let_def access.simps clean_invalidate_loop.simps
  wit_l2_cold_def wit_l1_cold_def wit_cold_def wit_line_def wit_one_def wit_two_def
  wit_two_l1_def wit_two_l2_def wit_three_def wit_three_l2_def wit_cleaned_def wit_dirty_def

lemma wit_new_l1: "cache_sim_t_new fifo_ops 2 2 8 ''L1'' ''fifo'' = Inr (Cache_sim wit_l1_cold None)"
  by (simp add: eval_defs upt_2)

lemma wit_new_l2: "cache_sim_t_new fifo_ops 2 2 8 ''L2'' ''fifo'' = Inr (Cache_sim wit_l2_cold None)"
  by (simp add: eval_defs upt_2)

lemma wit_access_one: "access fifo_ops wit_cold 0 4 False = Inr wit_one"
  by (simp add: eval_defs)

lemma wit_access_two:
  "(case access fifo_ops wit_one 4 2 True of Inl e \<Rightarrow> Inl e | Inr c \<Rightarrow> access fifo_ops c 16 4 True) =
   Inr wit_two"
  by (simp add: eval_defs)

lemma wit_reachable: "reachable fifo_ops wit_two"
proof -
  have "reachable fifo_ops (Cache_sim wit_l1_cold None)" using wit_new_l1 by (rule reach_new)
  moreover have "reachable fifo_ops (Cache_sim wit_l2_cold None)" using wit_new_l2 by (rule reach_new)
  ultimately have "reachable fifo_ops (set_miss_handler (Cache_sim wit_l1_cold None) (Cache_sim wit_l2_cold None))"
    by (rule reach_set_miss_handler)
  then have "reachable fifo_ops wit_cold" by (simp add: wit_cold_def)
  then have one: "reachable fifo_ops wit_one" using wit_access_one by (rule reach_access)
  from wit_access_two obtain c where
    "access fifo_ops wit_one 4 2 True = Inr c" "access fifo_ops c 16 4 True = Inr wit_two"
    by (auto split: sum.splits)
  with one show ?thesis by (blast intro: reach_access)
qed

lemma wit_access_three: "access fifo_ops wit_two 32 4 True = Inr wit_three"
  by (simp add: eval_defs)

lemma wit_clean: "clean_invalidate wit_two 0 8 True True = Some (Inr wit_cleaned)"
  by (simp add: eval_defs)

lemma wit_store: "access fifo_ops (Cache_sim wit_l1_cold None) 0 4 True = Inr wit_dirty"
  by (simp add: eval_defs)

text \<open>
  Claim C3. A fresh engine serves a store of 4 bytes at address 0, which leaves the line
  of address 0 valid and dirty. \<open>clean_invalidate(0, 4, true, true)\<close> then returns the
  engine unchanged: the line, which overlaps the range, is neither cleaned nor
  invalidated, and no event is recorded.
\<close>

theorem clean_invalidate_partial_line_skipped:
  "cache_sim_t_new fifo_ops 2 2 8 ''L1'' ''fifo'' = Inr (Cache_sim wit_l1_cold None) \<and>
   access fifo_ops (Cache_sim wit_l1_cold None) 0 4 True = Inr wit_dirty \<and>
   tags (self wit_dirty) ! 0 ! 0 = \<lparr>valid = True, dirty = True, tag = 0, idx = 0\<rparr> \<and>
   clean_invalidate wit_dirty 0 4 True True = Some (Inr wit_dirty)"
  by (simp add: eval_defs upt_2)

text \<open>
  Claim C2. On a fresh engine of 2 sets and lines of 8 bytes,
  \<open>clean_invalidate(0, 32, true, true)\<close> subscripts the tag array with the set index 2.
\<close>

theorem clean_invalidate_out_of_bounds:
  "cache_sim_t_new fifo_ops 2 2 8 ''L1'' ''fifo'' = Inr (Cache_sim wit_l1_cold None) \<and>
   clean_invalidate (Cache_sim wit_l1_cold None) 0 32 True True = Some (Inl OutOfBounds)"
  by (simp add: eval_defs upt_2)

lemma wit_levels_ok: "all_levels (level_ok fifo_queues) wit_two"
  by (simp add: level_ok_def geometry_fits_def fifo_queues_def wit_two_def wit_two_l1_def
      wit_two_l2_def wit_l1_cold_def wit_l2_cold_def)

lemma wit_walk_leaves: "clean_invalidate wit_two 0 32 True True = Some (Inl OutOfBounds)"
  by (simp add: eval_defs)

lemma wit_line_size_beyond_codec:
  "cache_sim_t_new fifo_ops 2 2 4294967296 ''L2'' ''fifo'' =
     Inr (Cache_sim (wit_l2_cold\<lparr>linesz := 4294967296\<rparr>) None)"
  "access fifo_ops (Cache_sim (wit_l2_cold\<lparr>linesz := 4294967296\<rparr>) None) 0 4 False = Inl Log2OfZero"
  "clean_invalidate (Cache_sim (wit_l2_cold\<lparr>linesz := 4294967296\<rparr>) None) 0 8 True True =
     Some (Inl Log2OfZero)"
  "access fifo_ops (Cache_sim wit_l1_cold (Some (Cache_sim (wit_l2_cold\<lparr>linesz := 4294967296\<rparr>) None)))
     0 4 False = Inl Log2OfZero"
  by (simp_all add: eval_defs upt_2)

theorem access_miss_writeback_then_fill_witness:
  "policy_contract fifo_ops fifo_queues \<and> all_levels (level_ok fifo_queues) wit_two \<and>
   cache_sim_addr_t_of 32 (ucast (sets wit_two_l1)) (ucast (linesz wit_two_l1)) = Inr (wit_line 2 False) \<and>
   check_tag wit_two_l1 (wit_line 2 False) = Inr (- 1) \<and>
   access fifo_ops wit_two 32 4 True = Inr wit_three \<and>
   perf_counter (self wit_three) = perf_counter wit_two_l1 @ [OnAccess True 4, OnMiss True, OnWriteback] \<and>
   (\<exists>m1. access fifo_ops (Cache_sim wit_two_l2 None) 0 8 True = Inr m1 \<and>
         access fifo_ops m1 32 8 False = Inr (Cache_sim wit_three_l2 None)) \<and>
   tags (self wit_three) ! 0 ! 0 = wit_line 2 True"
proof -
  have h1: "cache_sim_addr_t_of 32 (ucast (sets wit_two_l1)) (ucast (linesz wit_two_l1)) =
            Inr (wit_line 2 False)"
    by (simp add: eval_defs)
  have h2: "check_tag wit_two_l1 (wit_line 2 False) = Inr (- 1)"
    by (simp add: eval_defs)
  have h3: "(- 1 :: int) < 0" by simp
  from access_miss_writeback_then_fill[OF fifo_contract wit_levels_ok[unfolded wit_two_def] h1 h2 h3,
      of 4 True]
  obtain c' where "access fifo_ops wit_two 32 4 True = Inr c'"
    unfolding wit_two_def by blast
  with wit_access_three have c': "c' = wit_three" by simp
  have rest: "perf_counter (self wit_three) = perf_counter wit_two_l1 @ [OnAccess True 4, OnMiss True, OnWriteback] \<and>
   (\<exists>m1. access fifo_ops (Cache_sim wit_two_l2 None) 0 8 True = Inr m1 \<and>
         access fifo_ops m1 32 8 False = Inr (Cache_sim wit_three_l2 None)) \<and>
   tags (self wit_three) ! 0 ! 0 = wit_line 2 True"
    by (simp add: eval_defs)
  from c' fifo_contract wit_levels_ok h1 h2 wit_access_three rest show ?thesis by simp
qed

theorem reachable_distinct_tags_witness:
  "reachable fifo_ops wit_two \<and> no_dup_tags (self wit_two) \<and>
   tags (self wit_two) ! 0 = [wit_line 0 True, wit_line 1 True]"
proof -
  from reachable_distinct_tags[OF wit_reachable, of fifo_queues] show ?thesis
    using wit_reachable by (simp add: wit_two_def wit_two_l1_def wit_l1_cold_def wit_l2_cold_def)
qed

lemma wit_walk: "all_levels (walk_in_range 0 8) wit_two"
  by (simp add: walk_in_range_def eval_defs)

lemma wit_geometry: "all_levels geometry_fits wit_two"
  using wit_levels_ok by (rule all_levels_mono) (simp add: level_ok_def)

theorem clean_invalidate_twice_witness:
  "reachable fifo_ops wit_two \<and> all_levels geometry_fits wit_two \<and>
   all_levels (walk_in_range 0 8) wit_two \<and>
   clean_invalidate wit_two 0 8 True True = Some (Inr wit_cleaned) \<and>
   clean_invalidate wit_cleaned 0 8 True True = Some (Inr wit_cleaned)"
proof -
  from clean_invalidate_twice[OF wit_reachable wit_geometry wit_walk] wit_clean
  have "clean_invalidate wit_cleaned 0 8 True True = Some (Inr wit_cleaned)" by auto
  with wit_reachable wit_geometry wit_walk wit_clean show ?thesis by simp
qed

theorem hit_after_cold_miss_witness:
  "policy_contract fifo_ops fifo_queues \<and>
   cache_sim_t_new fifo_ops 2 2 8 ''L1'' ''fifo'' = Inr (Cache_sim wit_l1_cold None) \<and>
   policy_is_valid ''fifo'' \<and>
   all_levels (level_ok fifo_queues) (Cache_sim wit_l2_cold None) \<and>
   access fifo_ops wit_cold 0 4 False = Inr wit_one \<and>
   access fifo_ops wit_one 4 2 True = Inr wit_hit"
proof -
  have tok: "policy_is_valid ''fifo''" by (simp add: policy_is_valid_def)
  have fits: "unat (2 :: 64 word) < 2 ^ 32" "unat (8 :: 64 word) < 2 ^ 32" "0 < unat (2 :: 64 word)"
    "unat (2 :: 64 word) \<le> 2 ^ 31" by simp_all
  have l2: "all_levels (level_ok fifo_queues) (Cache_sim wit_l2_cold None)"
    by (simp add: level_ok_def geometry_fits_def fifo_queues_def wit_l2_cold_def)
  then have chain: "case Some (Cache_sim wit_l2_cold None) of None \<Rightarrow> True
                    | Some m \<Rightarrow> all_levels (level_ok fifo_queues) m" by simp
  have same: "cache_sim_addr_t_of 4 (ucast (2 :: 64 word)) (ucast (8 :: 64 word)) =
              cache_sim_addr_t_of 0 (ucast (2 :: 64 word)) (ucast (8 :: 64 word))"
    by (simp add: eval_defs)
  from hit_after_cold_miss[OF fifo_contract wit_new_l1 tok fits chain same, of 4 2 True]
  obtain c1 where
    c1: "access fifo_ops (Cache_sim (self (Cache_sim wit_l1_cold None)) (Some (Cache_sim wit_l2_cold None)))
           0 4 False = Inr c1" by blast
  with wit_access_one have "c1 = wit_one" by (simp add: wit_cold_def)
  have second: "access fifo_ops wit_one 4 2 True = Inr wit_hit"
    by (simp add: eval_defs wit_hit_def)
  from \<open>c1 = wit_one\<close> fifo_contract wit_new_l1 tok l2 wit_access_one second show ?thesis by simp
qed

section \<open>Runs of the engines of more than \<open>2 ^ 31\<close> ways\<close>

lemma far_new:
  "cache_sim_t_new (scripted_ops [2147483648, 0]) 1 2147483649 8 ''L1'' ''lfsr'' = Inr (Cache_sim far_cold None)"
  by (simp add: cache_sim_t_new_def init_def create_eviction_policy_def scripted_ops_def far_cold_def
      far_row_def)

lemma std_find_replicate_update:
  assumes "k < n" and "\<not> valid d" and "op_eq x a"
  shows "std_find ((replicate n d)[k := x]) a = k"
proof (rule std_find_first)
  show "k < length ((replicate n d)[k := x])" using assms by simp
  show "op_eq ((replicate n d)[k := x] ! k) a" using assms by simp
  show "\<forall>j<k. \<not> op_eq ((replicate n d)[k := x] ! j) a"
    using assms by (auto simp: op_eq_def)
qed

lemma std_find_replicate:
  "\<not> valid d \<Longrightarrow> std_find (replicate n d) a = n"
  using std_find_none[of "replicate n d" a] by (auto simp: op_eq_def)

lemma far_addr: "cache_sim_addr_t_of 0 (ucast (1 :: 64 word)) (ucast (8 :: 64 word)) = Inr (wit_line 0 False)"
  by (simp add: cache_sim_addr_t_of_def log2_u32_def floor_log2.simps wit_line_def)

lemma far_check_cold: "check_tag far_cold (wit_line 0 False) = Inr (- 1)"
  by (simp add: check_tag_def far_cold_def far_row_def wit_line_def std_find_replicate
      cache_sim_addr_t_default_def)

lemma far_access_one:
  "access (scripted_ops [2147483648, 0]) (Cache_sim far_cold None) 0 1 False = Inr (Cache_sim far_one None)"
proof (rule access_miss_result)
  show "cache_sim_addr_t_of 0 (ucast (sets far_cold)) (ucast (linesz far_cold)) = Inr (wit_line 0 False)"
    using far_addr by (simp add: far_cold_def)
  show "check_tag far_cold (wit_line 0 False) = Inr (- 1)" by (rule far_check_cold)
  show "(- 1 :: int) < 0" by simp
  show "access_miss (scripted_ops [2147483648, 0])
          (far_cold\<lparr>perf_counter := perf_counter far_cold @ [OnAccess False 1]\<rparr>) (wit_line 0 False) False =
        Inr (cache_sim_addr_t_default, far_one)"
    by (simp add: access_miss_def victimize_def scripted_ops_def far_cold_def far_one_def far_row_def
        wit_line_def set_valid_def Let_def)
  show "forwarded (scripted_ops [2147483648, 0]) far_one cache_sim_addr_t_default (wit_line 0 False) None None"
    by (simp add: forwarded_def)
  show "far_one = (if valid cache_sim_addr_t_default \<and> dirty cache_sim_addr_t_default
                   then far_one\<lparr>perf_counter := perf_counter far_one @ [OnWriteback]\<rparr> else far_one)"
    by (simp add: cache_sim_addr_t_default_def)
  show "if False then access_miss_store far_one (wit_line 0 False) = Inr far_one else far_one = far_one"
    by simp
qed

lemma far_check_one: "check_tag far_one (wit_line 0 False) = Inr (- 2147483648)"
proof -
  have "std_find (far_row[2147483648 := wit_line 0 False]) (wit_line 0 False) = 2147483648"
    unfolding far_row_def
    by (rule std_find_replicate_update) (simp_all add: cache_sim_addr_t_default_def op_eq_def wit_line_def)
  then show ?thesis
    by (simp add: check_tag_def far_one_def far_cold_def Let_def wit_line_def far_row_def)
qed

lemma far_access_two:
  "access (scripted_ops [2147483648, 0]) (Cache_sim far_one None) 0 1 False = Inr (Cache_sim far_two None)"
proof (rule access_miss_result)
  show "cache_sim_addr_t_of 0 (ucast (sets far_one)) (ucast (linesz far_one)) = Inr (wit_line 0 False)"
    using far_addr by (simp add: far_one_def far_cold_def)
  show "check_tag far_one (wit_line 0 False) = Inr (- 2147483648)" by (rule far_check_one)
  show "(- 2147483648 :: int) < 0" by simp
  show "access_miss (scripted_ops [2147483648, 0])
          (far_one\<lparr>perf_counter := perf_counter far_one @ [OnAccess False 1]\<rparr>) (wit_line 0 False) False =
        Inr (cache_sim_addr_t_default, far_two)"
    by (simp add: access_miss_def victimize_def scripted_ops_def far_cold_def far_one_def far_two_def
        far_row_def wit_line_def set_valid_def Let_def)
  show "forwarded (scripted_ops [2147483648, 0]) far_two cache_sim_addr_t_default (wit_line 0 False) None None"
    by (simp add: forwarded_def)
  show "far_two = (if valid cache_sim_addr_t_default \<and> dirty cache_sim_addr_t_default
                   then far_two\<lparr>perf_counter := perf_counter far_two @ [OnWriteback]\<rparr> else far_two)"
    by (simp add: cache_sim_addr_t_default_def)
  show "if False then access_miss_store far_two (wit_line 0 False) = Inr far_two else far_two = far_two"
    by simp
qed

lemma far_reachable: "reachable (scripted_ops [2147483648, 0]) (Cache_sim far_two None)"
proof -
  have "reachable (scripted_ops [2147483648, 0]) (Cache_sim far_cold None)"
    using far_new by (rule reach_new)
  then have "reachable (scripted_ops [2147483648, 0]) (Cache_sim far_one None)"
    using far_access_one by (rule reach_access)
  then show ?thesis using far_access_two by (rule reach_access)
qed

lemma distinct_tagsD:
  "distinct_tags row \<Longrightarrow> i < length row \<Longrightarrow> j < length row \<Longrightarrow> valid (row ! i) \<Longrightarrow> valid (row ! j) \<Longrightarrow>
   tag (row ! i) = tag (row ! j) \<Longrightarrow> i = j"
  unfolding distinct_tags_def by blast

lemma far_dup: "\<not> no_dup_tags far_two"
proof
  let ?row = "far_row[2147483648 := wit_line 0 False, 0 := wit_line 0 False]"
  assume "no_dup_tags far_two"
  then have "distinct_tags ?row"
    by (simp add: no_dup_tags_def far_two_def far_cold_def)
  then have "(0 :: nat) = 2147483648"
    by (rule distinct_tagsD) (simp_all add: far_row_def wit_line_def)
  then show False by simp
qed

text \<open>
  A fresh engine of one set and \<open>2 ^ 31 + 1\<close> ways whose policy fills the last way first:
  the second read of address 0 finds the line in way \<open>2 ^ 31\<close>, \<open>check_tag\<close> returns
  that position as the negative \<open>int\<close> \<open>- 2 ^ 31\<close>, and the access is counted as a
  second miss. And an engine with lines of \<open>2 ^ 32\<close> bytes, which \<open>init\<close> accepts, passes
  the line size 0 to the codec on its first access.
\<close>

theorem second_read_misses_beyond_int:
  "cache_sim_t_new (scripted_ops [2147483648, 0]) 1 2147483649 8 ''L1'' ''lfsr'' = Inr (Cache_sim far_cold None) \<and>
   access (scripted_ops [2147483648, 0]) (Cache_sim far_cold None) 0 1 False = Inr (Cache_sim far_one None) \<and>
   access (scripted_ops [2147483648, 0]) (Cache_sim far_one None) 0 1 False = Inr (Cache_sim far_two None) \<and>
   perf_counter far_two = [OnAccess False 1, OnMiss False, OnAccess False 1, OnMiss False] \<and>
   cache_sim_t_new fifo_ops 2 2 4294967296 ''L2'' ''fifo'' =
     Inr (Cache_sim (wit_l2_cold\<lparr>linesz := 4294967296\<rparr>) None) \<and>
   access fifo_ops (Cache_sim (wit_l2_cold\<lparr>linesz := 4294967296\<rparr>) None) 0 4 False = Inl Log2OfZero"
  using far_new far_access_one far_access_two wit_line_size_beyond_codec(1,2)
  by (simp add: far_two_def far_cold_def)

text \<open>
  The engine of \<open>2 ^ 31 + 1\<close> ways after the two reads of address 0: a program can build
  it, and way 0 and way \<open>2 ^ 31\<close> of its only set hold the same valid tag.
\<close>

theorem duplicate_tag_beyond_int:
  "reachable (scripted_ops [2147483648, 0]) (Cache_sim far_two None) \<and>
   tags far_two ! 0 ! 0 = wit_line 0 False \<and> tags far_two ! 0 ! 2147483648 = wit_line 0 False \<and>
   \<not> all_levels no_dup_tags (Cache_sim far_two None)"
  using far_reachable far_dup by (simp add: far_two_def far_cold_def far_row_def)

lemma wrap_new:
  "cache_sim_t_new (scripted_ops [4294967301]) 1 4294967302 8 ''L1'' ''lfsr'' = Inr (Cache_sim wrap_cold None)"
  by (simp add: cache_sim_t_new_def init_def create_eviction_policy_def scripted_ops_def wrap_cold_def
      wrap_row_def)

lemma wrap_check_cold: "check_tag wrap_cold (wit_line 0 False) = Inr (- 1)"
  by (simp add: check_tag_def wrap_cold_def wrap_row_def wit_line_def std_find_replicate
      cache_sim_addr_t_default_def)

lemma wrap_check_filled: "check_tag wrap_filled (wit_line 0 False) = Inr 5"
proof -
  have "std_find (wrap_row[4294967301 := wit_line 0 False]) (wit_line 0 False) = 4294967301"
    unfolding wrap_row_def
    by (rule std_find_replicate_update) (simp_all add: cache_sim_addr_t_default_def op_eq_def wit_line_def)
  then show ?thesis
    by (simp add: check_tag_def wrap_filled_def wrap_cold_def Let_def wit_line_def wrap_row_def)
qed

lemma wit_line_idx: "idx (wit_line t d) = 0"
  by (simp add: wit_line_def)

lemma wrap_access:
  "access (scripted_ops [4294967301]) (Cache_sim wrap_cold None) 0 1 True = Inr (Cache_sim wrap_stored None)"
proof (rule access_miss_result)
  show "cache_sim_addr_t_of 0 (ucast (sets wrap_cold)) (ucast (linesz wrap_cold)) = Inr (wit_line 0 False)"
    using far_addr by (simp add: wrap_cold_def)
  show "check_tag wrap_cold (wit_line 0 False) = Inr (- 1)" by (rule wrap_check_cold)
  show "(- 1 :: int) < 0" by simp
  show "access_miss (scripted_ops [4294967301])
          (wrap_cold\<lparr>perf_counter := perf_counter wrap_cold @ [OnAccess True 1]\<rparr>) (wit_line 0 False) True =
        Inr (cache_sim_addr_t_default, wrap_filled)"
    by (simp add: access_miss_def victimize_def scripted_ops_def wrap_cold_def wrap_filled_def
        wrap_row_def wit_line_def set_valid_def Let_def)
  show "forwarded (scripted_ops [4294967301]) wrap_filled cache_sim_addr_t_default (wit_line 0 False) None None"
    by (simp add: forwarded_def)
  show "wrap_filled = (if valid cache_sim_addr_t_default \<and> dirty cache_sim_addr_t_default
                   then wrap_filled\<lparr>perf_counter := perf_counter wrap_filled @ [OnWriteback]\<rparr> else wrap_filled)"
    by (simp add: cache_sim_addr_t_default_def)
  have "access_miss_store wrap_filled (wit_line 0 False) = modify_line set_dirty 0 5 wrap_filled"
    by (simp add: access_miss_store_def wrap_check_filled wit_line_idx size_t_of_int_def)
  also have "\<dots> = Inr wrap_stored"
    by (simp add: modify_line_def wrap_filled_def wrap_cold_def wrap_stored_def wrap_row_def
        set_dirty_def cache_sim_addr_t_default_def)
  finally show "if True then access_miss_store wrap_filled (wit_line 0 False) = Inr wrap_stored
        else wrap_stored = wrap_filled"
    by simp
qed

text \<open>
  A fresh engine of one set and \<open>2 ^ 32 + 6\<close> ways whose policy fills the last way: a
  store of address 0 misses, the new line goes to way \<open>2 ^ 32 + 5\<close>, \<open>check_tag\<close> returns
  that position as the \<open>int\<close> 5, and the store marks way 5 dirty; the new line stays
  clean. And a miss on a first level whose next level has lines of \<open>2 ^ 32\<close> bytes
  passes the line size 0 to the codec of the next level.
\<close>

theorem store_miss_marks_other_way:
  "cache_sim_t_new (scripted_ops [4294967301]) 1 4294967302 8 ''L1'' ''lfsr'' = Inr (Cache_sim wrap_cold None) \<and>
   cache_sim_addr_t_of 0 (ucast (sets wrap_cold)) (ucast (linesz wrap_cold)) = Inr (wit_line 0 False) \<and>
   check_tag wrap_cold (wit_line 0 False) = Inr (- 1) \<and>
   access (scripted_ops [4294967301]) (Cache_sim wrap_cold None) 0 1 True = Inr (Cache_sim wrap_stored None) \<and>
   tags wrap_stored ! 0 ! 4294967301 = \<lparr>valid = True, dirty = False, tag = 0, idx = 0\<rparr> \<and>
   tags wrap_stored ! 0 ! 5 = \<lparr>valid = False, dirty = True, tag = 0, idx = 0\<rparr> \<and>
   cache_sim_t_new fifo_ops 2 2 4294967296 ''L2'' ''fifo'' =
     Inr (Cache_sim (wit_l2_cold\<lparr>linesz := 4294967296\<rparr>) None) \<and>
   check_tag wit_l1_cold (wit_line 0 False) = Inr (- 1) \<and>
   access fifo_ops (Cache_sim wit_l1_cold (Some (Cache_sim (wit_l2_cold\<lparr>linesz := 4294967296\<rparr>) None)))
     0 4 False = Inl Log2OfZero"
proof -
  have "check_tag wit_l1_cold (wit_line 0 False) = Inr (- 1)" by (simp add: eval_defs)
  with wrap_new wrap_check_cold wrap_access far_addr wit_line_size_beyond_codec(1,4) show ?thesis
    by (simp add: wrap_stored_def wrap_filled_def wrap_cold_def wrap_row_def wit_line_def)
qed

lemma access_miss_last_level:
  assumes "cache_sim_addr_t_of raw_addr (ucast (sets s)) (ucast (linesz s)) = Inr addr"
    and "check_tag s addr = Inr hit" and "hit < 0"
    and "access_miss ops (s\<lparr>perf_counter := perf_counter s @ [OnAccess store bytes]\<rparr>) addr store =
           Inr (victim, sa)"
    and "\<not> (valid victim \<and> dirty victim)"
    and "if store then access_miss_store sa addr = Inr sb else sb = sa"
  shows "access ops (Cache_sim s None) raw_addr bytes store = Inr (Cache_sim sb None)"
proof (rule access_miss_result[OF assms(1-4)])
  show "forwarded ops sa victim addr None None" by (simp add: forwarded_def)
  show "sa = (if valid victim \<and> dirty victim
              then sa\<lparr>perf_counter := perf_counter sa @ [OnWriteback]\<rparr> else sa)"
    using assms(5) by simp
  show "if store then access_miss_store sa addr = Inr sb else sb = sa" by (rule assms(6))
qed

lemma check_tag_at:
  assumes "tags s = [row]" and "idx a = 0" and "k < length row" and "op_eq (row ! k) a"
    and "\<forall>j<k. \<not> op_eq (row ! j) a"
  shows "check_tag s a = Inr (sint (word_of_nat k :: 32 word))"
proof -
  from assms(3-5) have "std_find row a = k" by (rule std_find_first)
  with assms(1-3) show ?thesis by (simp add: check_tag_def Let_def)
qed

lemma check_tag_absent:
  assumes "tags s = [row]" and "idx a = 0" and "\<forall>j<length row. \<not> op_eq (row ! j) a"
  shows "check_tag s a = Inr (- 1)"
proof -
  from assms(3) have "\<forall>e \<in> set row. \<not> op_eq e a" by (auto simp: in_set_conv_nth)
  then have "std_find row a = length row" by (simp add: std_find_none)
  with assms(1,2) show ?thesis by (simp add: check_tag_def Let_def)
qed

lemmas wide_defs = wide_cold_def wide_one_def wide_two_def wide_three_def wide_four_def wide_five_def
  wide_six_def wide_seven_def

lemmas line_defs = wide_row_def wit_line_def cache_sim_addr_t_default_def op_eq_def

lemma wide_new:
  "cache_sim_t_new wide_ops 1 4294967298 8 ''L1'' ''lfsr'' = Inr (Cache_sim wide_cold None)"
  by (simp add: cache_sim_t_new_def init_def create_eviction_policy_def scripted_ops_def wide_cold_def
      wide_row_def wide_ops_def)

lemma wide_addr:
  "cache_sim_addr_t_of 0 (ucast (1 :: 64 word)) (ucast (8 :: 64 word)) = Inr (wit_line 0 False)"
  "cache_sim_addr_t_of 8 (ucast (1 :: 64 word)) (ucast (8 :: 64 word)) = Inr (wit_line 1 False)"
  "cache_sim_addr_t_of 16 (ucast (1 :: 64 word)) (ucast (8 :: 64 word)) = Inr (wit_line 2 False)"
  by (simp_all add: cache_sim_addr_t_of_def log2_u32_def floor_log2.simps wit_line_def)

lemma wide_check_cold: "check_tag wide_cold (wit_line 0 False) = Inr (- 1)"
  by (rule check_tag_absent[where row = wide_row]) (simp_all add: wide_defs line_defs)

lemma wide_check_one: "check_tag wide_one (wit_line 0 False) = Inr (- 2147483648)"
  using check_tag_at[where s = wide_one and a = "wit_line 0 False" and k = 2147483648
      and row = "wide_row[2147483648 := wit_line 0 False]"]
  by (auto simp: wide_defs line_defs nth_list_update)

lemma wide_check_two: "check_tag wide_two (wit_line 0 False) = Inr (- 2147483648)"
  using check_tag_at[where s = wide_two and a = "wit_line 0 False" and k = 2147483648
      and row = "wide_row[2147483648 := wit_line 0 False, 4294967297 := wit_line 0 False]"]
  by (auto simp: wide_defs line_defs nth_list_update)

lemma wide_check_three: "check_tag wide_three (wit_line 1 False) = Inr (- 1)"
  by (rule check_tag_absent[where row = "wide_row[2147483648 := wit_line 0 False,
        4294967297 := wit_line 0 False, 0 := wit_line 0 True]"])
    (auto simp: wide_defs line_defs nth_list_update)

lemma wide_check_four: "check_tag wide_four (wit_line 2 False) = Inr (- 1)"
  by (rule check_tag_absent[where row = "wide_row[2147483648 := wit_line 0 False,
        4294967297 := wit_line 0 False, 0 := wit_line 0 True, 2147483648 := wit_line 1 False]"])
    (auto simp: wide_defs line_defs nth_list_update)

lemma wide_access_one:
  "access wide_ops (Cache_sim wide_cold None) 0 1 False = Inr (Cache_sim wide_one None)"
proof (rule access_miss_last_level[where victim = cache_sim_addr_t_default and sa = wide_one])
  show "cache_sim_addr_t_of 0 (ucast (sets wide_cold)) (ucast (linesz wide_cold)) = Inr (wit_line 0 False)"
    using wide_addr by (simp add: wide_cold_def)
  show "check_tag wide_cold (wit_line 0 False) = Inr (- 1)" by (rule wide_check_cold)
  show "(- 1 :: int) < 0" by simp
  show "access_miss wide_ops
          (wide_cold\<lparr>perf_counter := perf_counter wide_cold @ [OnAccess False 1]\<rparr>) (wit_line 0 False) False =
        Inr (cache_sim_addr_t_default, wide_one)"
    by (simp add: access_miss_def victimize_def scripted_ops_def wide_ops_def wide_defs
        wide_row_def wit_line_def set_valid_def Let_def)
  show "\<not> (valid cache_sim_addr_t_default \<and> dirty cache_sim_addr_t_default)"
    by (simp add: cache_sim_addr_t_default_def)
  show "if False then access_miss_store wide_one (wit_line 0 False) = Inr wide_one else wide_one = wide_one"
    by simp
qed

lemma wide_access_two:
  "access wide_ops (Cache_sim wide_one None) 0 1 False = Inr (Cache_sim wide_two None)"
proof (rule access_miss_last_level[where victim = cache_sim_addr_t_default and sa = wide_two])
  show "cache_sim_addr_t_of 0 (ucast (sets wide_one)) (ucast (linesz wide_one)) = Inr (wit_line 0 False)"
    using wide_addr by (simp add: wide_defs)
  show "check_tag wide_one (wit_line 0 False) = Inr (- 2147483648)" by (rule wide_check_one)
  show "(- 2147483648 :: int) < 0" by simp
  show "access_miss wide_ops
          (wide_one\<lparr>perf_counter := perf_counter wide_one @ [OnAccess False 1]\<rparr>) (wit_line 0 False) False =
        Inr (cache_sim_addr_t_default, wide_two)"
    by (simp add: access_miss_def victimize_def scripted_ops_def wide_ops_def wide_defs
        wide_row_def wit_line_def set_valid_def Let_def)
  show "\<not> (valid cache_sim_addr_t_default \<and> dirty cache_sim_addr_t_default)"
    by (simp add: cache_sim_addr_t_default_def)
  show "if False then access_miss_store wide_two (wit_line 0 False) = Inr wide_two else wide_two = wide_two"
    by simp
qed

lemma wide_access_three:
  "access wide_ops (Cache_sim wide_two None) 0 1 True = Inr (Cache_sim wide_three None)"
proof (rule access_miss_last_level[where victim = cache_sim_addr_t_default
      and sa = "wide_three\<lparr>tags := [wide_row[2147483648 := wit_line 0 False,
                    4294967297 := wit_line 0 False, 0 := wit_line 0 False]]\<rparr>"])
  let ?mid = "wide_three\<lparr>tags := [wide_row[2147483648 := wit_line 0 False,
                    4294967297 := wit_line 0 False, 0 := wit_line 0 False]]\<rparr>"
  show "cache_sim_addr_t_of 0 (ucast (sets wide_two)) (ucast (linesz wide_two)) = Inr (wit_line 0 False)"
    using wide_addr by (simp add: wide_defs)
  show "check_tag wide_two (wit_line 0 False) = Inr (- 2147483648)" by (rule wide_check_two)
  show "(- 2147483648 :: int) < 0" by simp
  show "access_miss wide_ops
          (wide_two\<lparr>perf_counter := perf_counter wide_two @ [OnAccess True 1]\<rparr>) (wit_line 0 False) True =
        Inr (cache_sim_addr_t_default, ?mid)"
    by (simp add: access_miss_def victimize_def scripted_ops_def wide_ops_def wide_defs
        wide_row_def wit_line_def set_valid_def Let_def)
  show "\<not> (valid cache_sim_addr_t_default \<and> dirty cache_sim_addr_t_default)"
    by (simp add: cache_sim_addr_t_default_def)
  have "check_tag ?mid (wit_line 0 False) = Inr 0"
    using check_tag_at[where s = ?mid and a = "wit_line 0 False" and k = 0
      and row = "wide_row[2147483648 := wit_line 0 False, 4294967297 := wit_line 0 False,
                          0 := wit_line 0 False]"]
    by (auto simp: wide_defs line_defs nth_list_update)
  then have "access_miss_store ?mid (wit_line 0 False) = modify_line set_dirty 0 0 ?mid"
    by (simp add: access_miss_store_def wit_line_idx size_t_of_int_def)
  also have "\<dots> = Inr wide_three"
    by (simp add: modify_line_def wide_defs wide_row_def set_dirty_def wit_line_def)
  finally show "if True then access_miss_store ?mid (wit_line 0 False) = Inr wide_three
                else wide_three = ?mid"
    by simp
qed

lemma wide_access_four:
  "access wide_ops (Cache_sim wide_three None) 8 1 False = Inr (Cache_sim wide_four None)"
proof (rule access_miss_last_level[where victim = "wit_line 0 False" and sa = wide_four])
  show "cache_sim_addr_t_of 8 (ucast (sets wide_three)) (ucast (linesz wide_three)) = Inr (wit_line 1 False)"
    using wide_addr by (simp add: wide_defs)
  show "check_tag wide_three (wit_line 1 False) = Inr (- 1)" by (rule wide_check_three)
  show "(- 1 :: int) < 0" by simp
  show "access_miss wide_ops
          (wide_three\<lparr>perf_counter := perf_counter wide_three @ [OnAccess False 1]\<rparr>) (wit_line 1 False) False =
        Inr (wit_line 0 False, wide_four)"
    by (simp add: access_miss_def victimize_def scripted_ops_def wide_ops_def wide_defs
        wide_row_def wit_line_def set_valid_def Let_def)
  show "\<not> (valid (wit_line 0 False) \<and> dirty (wit_line 0 False))"
    by (simp add: wit_line_def)
  show "if False then access_miss_store wide_four (wit_line 1 False) = Inr wide_four else wide_four = wide_four"
    by simp
qed

lemma wide_access_five:
  "access wide_ops (Cache_sim wide_four None) 16 1 True = Inr (Cache_sim wide_five None)"
proof (rule access_miss_last_level[where victim = cache_sim_addr_t_default
      and sa = "wide_five\<lparr>tags := [wide_row[2147483648 := wit_line 0 False,
                    4294967297 := wit_line 0 False, 0 := wit_line 0 True,
                    2147483648 := wit_line 1 False, 1 := wit_line 2 False]]\<rparr>"])
  let ?row = "wide_row[2147483648 := wit_line 0 False,
                    4294967297 := wit_line 0 False, 0 := wit_line 0 True,
                    2147483648 := wit_line 1 False, 1 := wit_line 2 False]"
  let ?mid = "wide_five\<lparr>tags := [?row]\<rparr>"
  show "cache_sim_addr_t_of 16 (ucast (sets wide_four)) (ucast (linesz wide_four)) = Inr (wit_line 2 False)"
    using wide_addr by (simp add: wide_defs)
  show "check_tag wide_four (wit_line 2 False) = Inr (- 1)" by (rule wide_check_four)
  show "(- 1 :: int) < 0" by simp
  show "access_miss wide_ops
          (wide_four\<lparr>perf_counter := perf_counter wide_four @ [OnAccess True 1]\<rparr>) (wit_line 2 False) True =
        Inr (cache_sim_addr_t_default, ?mid)"
    by (simp add: access_miss_def victimize_def scripted_ops_def wide_ops_def wide_defs
        wide_row_def wit_line_def set_valid_def Let_def)
  show "\<not> (valid cache_sim_addr_t_default \<and> dirty cache_sim_addr_t_default)"
    by (simp add: cache_sim_addr_t_default_def)
  have "check_tag ?mid (wit_line 2 False) = Inr 1"
    using check_tag_at[where s = ?mid and a = "wit_line 2 False" and k = 1 and row = ?row]
    by (auto simp: wide_defs line_defs nth_list_update)
  then have "access_miss_store ?mid (wit_line 2 False) = modify_line set_dirty 0 1 ?mid"
    by (simp add: access_miss_store_def wit_line_idx size_t_of_int_def)
  also have "\<dots> = Inr wide_five"
    by (simp add: modify_line_def wide_defs wide_row_def set_dirty_def wit_line_def)
  finally show "if True then access_miss_store ?mid (wit_line 2 False) = Inr wide_five
                else wide_five = ?mid"
    by simp
qed

lemma wide_reachable: "reachable wide_ops (Cache_sim wide_five None)"
proof -
  have "reachable wide_ops (Cache_sim wide_cold None)" using wide_new by (rule reach_new)
  then have "reachable wide_ops (Cache_sim wide_one None)" using wide_access_one by (rule reach_access)
  then have "reachable wide_ops (Cache_sim wide_two None)" using wide_access_two by (rule reach_access)
  then have "reachable wide_ops (Cache_sim wide_three None)" using wide_access_three by (rule reach_access)
  then have "reachable wide_ops (Cache_sim wide_four None)" using wide_access_four by (rule reach_access)
  then show ?thesis using wide_access_five by (rule reach_access)
qed

lemma clean_invalidate_loop_once:
  assumes "op_lt cur en" and "clean_invalidate_line s cur clean inval = Inr sa"
    and "\<not> op_lt (next_cacheline cur (ucast (sets sa))) en"
  shows "clean_invalidate_loop s cur en clean inval = Some (Inr sa)"
proof -
  from assms(3) have "clean_invalidate_loop sa (next_cacheline cur (ucast (sets sa))) en clean inval =
                      Some (Inr sa)"
    by (subst clean_invalidate_loop.simps) simp
  with assms(1,2) show ?thesis by (subst clean_invalidate_loop.simps) simp
qed

lemma wide_line_first: "clean_invalidate_line wide_five (wit_line 0 False) True True = Inr wide_six"
proof -
  have "check_tag wide_five (wit_line 0 False) = Inr 0"
    using check_tag_at[where s = wide_five and a = "wit_line 0 False" and k = 0
      and row = "wide_row[2147483648 := wit_line 0 False, 4294967297 := wit_line 0 False,
                   0 := wit_line 0 True, 2147483648 := wit_line 1 False, 1 := wit_line 2 True]"]
    by (auto simp: wide_defs line_defs nth_list_update)
  then show ?thesis
    by (simp add: clean_invalidate_line_def wit_line_idx size_t_of_int_def Let_def read_line_def
        modify_line_def wide_defs wide_row_def set_clean_def set_invalid_def wit_line_def
        cache_sim_addr_t_default_def list_update_swap)
qed

lemma wide_line_second: "clean_invalidate_line wide_six (wit_line 0 False) True True = Inr wide_seven"
proof -
  have "check_tag wide_six (wit_line 0 False) = Inr 1"
    using check_tag_at[where s = wide_six and a = "wit_line 0 False" and k = 4294967297
      and row = "wide_row[2147483648 := wit_line 0 False, 4294967297 := wit_line 0 False,
                   0 := cache_sim_addr_t_default, 2147483648 := wit_line 1 False, 1 := wit_line 2 True]"]
    by (auto simp: wide_defs line_defs nth_list_update)
  then show ?thesis
    by (simp add: clean_invalidate_line_def wit_line_idx size_t_of_int_def Let_def read_line_def
        modify_line_def wide_defs wide_row_def set_clean_def set_invalid_def wit_line_def
        cache_sim_addr_t_default_def)
qed

lemma wide_clean_first:
  "clean_invalidate (Cache_sim wide_five None) 0 8 True True = Some (Inr (Cache_sim wide_six None))"
proof -
  have "clean_invalidate_loop wide_five (wit_line 0 False) (wit_line 1 False) True True =
        Some (Inr wide_six)"
    by (rule clean_invalidate_loop_once[OF _ wide_line_first])
      (simp_all add: op_lt_def next_cacheline_def wit_line_def wide_defs)
  moreover have "sets wide_five = 1" "linesz wide_five = 8" by (simp_all add: wide_defs)
  ultimately show ?thesis using wide_addr by simp
qed

lemma wide_clean_second:
  "clean_invalidate (Cache_sim wide_six None) 0 8 True True = Some (Inr (Cache_sim wide_seven None))"
proof -
  have "clean_invalidate_loop wide_six (wit_line 0 False) (wit_line 1 False) True True =
        Some (Inr wide_seven)"
    by (rule clean_invalidate_loop_once[OF _ wide_line_second])
      (simp_all add: op_lt_def next_cacheline_def wit_line_def wide_defs)
  moreover have "sets wide_six = 1" "linesz wide_six = 8" by (simp_all add: wide_defs)
  ultimately show ?thesis using wide_addr by simp
qed

text \<open>
  An engine of one set and \<open>2 ^ 32 + 2\<close> ways that a program can build: the line of
  address 0 is in way 0, dirty, and in way \<open>2 ^ 32 + 1\<close>; the line of address 16 is in
  way 1, dirty. The first call cleans and invalidates way 0. The second call finds the
  line in way \<open>2 ^ 32 + 1\<close>, \<open>check_tag\<close> returns that position as the \<open>int\<close> 1, and
  the call cleans and invalidates way 1, the line of address 16, with a write-back and a
  clean event. And on the chain of two caches the call for the range \<open>[0, 32)\<close> leaves
  the tag array, and on an engine with lines of \<open>2 ^ 32\<close> bytes the call passes the line
  size 0 to the codec.
\<close>

theorem clean_invalidate_twice_differs_beyond_int:
  "reachable wide_ops (Cache_sim wide_five None) \<and>
   clean_invalidate (Cache_sim wide_five None) 0 8 True True = Some (Inr (Cache_sim wide_six None)) \<and>
   clean_invalidate (Cache_sim wide_six None) 0 8 True True = Some (Inr (Cache_sim wide_seven None)) \<and>
   tags wide_six ! 0 ! 1 = \<lparr>valid = True, dirty = True, tag = 2, idx = 0\<rparr> \<and>
   tags wide_seven ! 0 ! 1 = \<lparr>valid = False, dirty = False, tag = 2, idx = 0\<rparr> \<and>
   perf_counter wide_seven = perf_counter wide_six @ [OnWriteback, OnClean] \<and>
   reachable fifo_ops wit_two \<and>
   clean_invalidate wit_two 0 32 True True = Some (Inl OutOfBounds) \<and>
   cache_sim_t_new fifo_ops 2 2 4294967296 ''L2'' ''fifo'' =
     Inr (Cache_sim (wit_l2_cold\<lparr>linesz := 4294967296\<rparr>) None) \<and>
   clean_invalidate (Cache_sim (wit_l2_cold\<lparr>linesz := 4294967296\<rparr>) None) 0 8 True True =
     Some (Inl Log2OfZero)"
  using wide_reachable wide_clean_first wide_clean_second wit_reachable wit_walk_leaves
    wit_line_size_beyond_codec(1,3)
  by (simp add: wide_defs wide_row_def wit_line_def)

end
